theory Spec2Isabelle
  imports Main
begin

section \<open>procmanage: a process handle over fork, pipes and execve\<close>

text \<open>
  The repository holds two listings of \<^verbatim>\<open>procmanage.c\<close>. Listing A is the one with
  the helper functions \<^verbatim>\<open>_process_array_count\<close>, \<^verbatim>\<open>_process_array_clear\<close>,
  \<^verbatim>\<open>_process_array_push\<close> and \<^verbatim>\<open>_process_string_copy\<close>; listing B writes the same
  loops inline. A function that is the same text in both listings is modelled once; a
  function that differs is modelled twice, with the suffix \<open>_A\<close> or \<open>_B\<close>.
  A leading underscore of a C name is dropped.
\<close>

subsection \<open>Memory\<close>

text \<open>
  A pointer is a block address; address 0 is the null pointer. The heap is the list of all
  blocks ever allocated: the block at address \<open>a\<close> is entry \<open>a - 1\<close>, and a released block
  is \<open>None\<close>. A new block always gets the next unused address, so it never coincides with
  a block that exists. Allocation itself never fails in this model.
\<close>

type_synonym ptr = nat

abbreviation NULL :: ptr where
  "NULL \<equiv> 0"

record Process =
  path :: ptr
  argv :: ptr
  envp :: ptr
  in' :: int
  out :: int
  err :: int
  pid :: int

datatype block = Chars "char list" | Ptrs "ptr list" | Struct Process

type_synonym heap = "block option list"

datatype fault = NullDeref | BadAccess | BadFree

definition bindF :: "fault + 'a \<Rightarrow> ('a \<Rightarrow> fault + 'b) \<Rightarrow> fault + 'b" where
  "bindF m f = (case m of Inl e \<Rightarrow> Inl e | Inr x \<Rightarrow> f x)"

definition load :: "ptr \<Rightarrow> heap \<Rightarrow> fault + block" where
  "load a h =
     (if a = NULL then Inl NullDeref
      else if a \<le> length h then
        (case h ! (a - 1) of None \<Rightarrow> Inl BadAccess | Some b \<Rightarrow> Inr b)
      else Inl BadAccess)"

definition store :: "ptr \<Rightarrow> block \<Rightarrow> heap \<Rightarrow> heap" where
  "store a b h = h[a - 1 := Some b]"

definition alloc :: "block \<Rightarrow> heap \<Rightarrow> ptr \<times> heap" where
  "alloc b h = (Suc (length h), h @ [Some b])"

text \<open>\<^verbatim>\<open>free(NULL)\<close> does nothing; releasing anything but a live block is a fault.\<close>

definition free :: "ptr \<Rightarrow> heap \<Rightarrow> fault + heap" where
  "free a h =
     (if a = NULL then Inr h
      else (case load a h of Inl e \<Rightarrow> Inl BadFree | Inr b \<Rightarrow> Inr (h[a - 1 := None])))"

definition load_proc :: "ptr \<Rightarrow> heap \<Rightarrow> fault + Process" where
  "load_proc p h =
     (case load p h of
        Inl e \<Rightarrow> Inl e
      | Inr (Struct P) \<Rightarrow> Inr P
      | Inr _ \<Rightarrow> Inl BadAccess)"

definition load_ptrs :: "ptr \<Rightarrow> heap \<Rightarrow> fault + ptr list" where
  "load_ptrs a h =
     (case load a h of
        Inl e \<Rightarrow> Inl e
      | Inr (Ptrs ps) \<Rightarrow> Inr ps
      | Inr _ \<Rightarrow> Inl BadAccess)"

definition load_chars :: "ptr \<Rightarrow> heap \<Rightarrow> fault + char list" where
  "load_chars a h =
     (case load a h of
        Inl e \<Rightarrow> Inl e
      | Inr (Chars cs) \<Rightarrow> Inr cs
      | Inr _ \<Rightarrow> Inl BadAccess)"

definition update_proc :: "ptr \<Rightarrow> (Process \<Rightarrow> Process) \<Rightarrow> heap \<Rightarrow> fault + heap" where
  "update_proc p f h = bindF (load_proc p h) (\<lambda>P. Inr (store p (Struct (f P)) h))"

definition read_slot :: "ptr \<Rightarrow> nat \<Rightarrow> heap \<Rightarrow> fault + ptr" where
  "read_slot a i h =
     bindF (load_ptrs a h) (\<lambda>ps. if i < length ps then Inr (ps ! i) else Inl BadAccess)"

definition write_slot :: "ptr \<Rightarrow> nat \<Rightarrow> ptr \<Rightarrow> heap \<Rightarrow> fault + heap" where
  "write_slot a i v h =
     bindF (load_ptrs a h) (\<lambda>ps.
       if i < length ps then Inr (store a (Ptrs (ps[i := v])) h) else Inl BadAccess)"

subsection \<open>The C library\<close>

text \<open>
  A string is a block of characters read up to its first zero byte; a block without a zero
  byte makes \<^verbatim>\<open>strlen\<close> read past its end, which is a fault.
\<close>

fun strlen_from :: "char list \<Rightarrow> nat \<Rightarrow> fault + nat" where
  "strlen_from [] n = Inl BadAccess"
| "strlen_from (c # cs) n = (if c = CHR 0x00 then Inr n else strlen_from cs (Suc n))"

definition strlen :: "ptr \<Rightarrow> heap \<Rightarrow> fault + nat" where
  "strlen s h = bindF (load_chars s h) (\<lambda>cs. strlen_from cs 0)"

definition calloc :: "nat \<Rightarrow> heap \<Rightarrow> ptr \<times> heap" where
  "calloc n h = alloc (Chars (replicate n (CHR 0x00))) h"

definition memcpy :: "ptr \<Rightarrow> ptr \<Rightarrow> nat \<Rightarrow> heap \<Rightarrow> fault + heap" where
  "memcpy dest src n h =
     bindF (load_chars src h) (\<lambda>cs.
     bindF (load_chars dest h) (\<lambda>ds.
       if n \<le> length cs \<and> n \<le> length ds
       then Inr (store dest (Chars (take n cs @ drop n ds)) h)
       else Inl BadAccess))"

text \<open>
  \<^verbatim>\<open>realloc\<close> of a pointer array to \<open>n\<close> slots. The array is always moved to a new block
  and the old block released; \<^verbatim>\<open>realloc(NULL, n)\<close> allocates. Slots beyond the old
  contents are uninitialised in C; the callers below write them before any read, and the
  model fills them with null.
\<close>

definition realloc :: "ptr \<Rightarrow> nat \<Rightarrow> heap \<Rightarrow> fault + (ptr \<times> heap)" where
  "realloc a n h =
     (if a = NULL then Inr (alloc (Ptrs (replicate n NULL)) h)
      else bindF (load_ptrs a h) (\<lambda>ps.
             let (a1, h1) = alloc (Ptrs (take n ps @ replicate (n - length ps) NULL)) h
             in Inr (a1, h1[a - 1 := None])))"

subsection \<open>The operating system\<close>

text \<open>
  Every system call the library makes is recorded, in order. The macros of the system
  headers are kept as names.
\<close>

datatype signal = SIGKILL

datatype wait_option = WNOHANG

datatype std_fileno = STDIN_FILENO | STDOUT_FILENO | STDERR_FILENO

datatype syscall =
    Pipe "(int \<times> int) option"
  | Fork int
  | Close int
  | Dup2 int std_fileno
  | Setsid
  | Execve ptr ptr ptr
  | Exit int
  | Kill int signal
  | Waitpid int ptr wait_option

text \<open>
  What the system answers during one \<^verbatim>\<open>process_open\<close>: for each \<^verbatim>\<open>pipe\<close> call the
  descriptor pair it stores (read end, write end), or \<open>None\<close> when it fails and leaves
  the local array as it was, uninitialised; the value \<^verbatim>\<open>fork\<close> returns; and, in the
  child, whether \<^verbatim>\<open>execve\<close> replaces the image.
\<close>

record launch_env =
  ipipe_uninit :: "int \<times> int"
  opipe_uninit :: "int \<times> int"
  epipe_uninit :: "int \<times> int"
  ipipe_reply :: "(int \<times> int) option"
  opipe_reply :: "(int \<times> int) option"
  epipe_reply :: "(int \<times> int) option"
  fork_reply :: int
  execve_succeeds :: bool

definition pipe_call :: "(int \<times> int) option \<Rightarrow> int \<times> int \<Rightarrow> int \<times> int" where
  "pipe_call reply arr = (case reply of Some fds \<Rightarrow> fds | None \<Rightarrow> arr)"

text \<open>
  How a call of \<^verbatim>\<open>process_open\<close> ends in the process that runs it: it returns a value,
  or (in the child) the image is replaced by \<^verbatim>\<open>execve\<close>, or the process ends in
  \<^verbatim>\<open>_exit\<close>.
\<close>

datatype outcome = Returns int | ImageReplaced | Exited int

subsection \<open>String lists (listing A)\<close>

text \<open>
  The loop of \<^verbatim>\<open>_process_array_count\<close>, over the slots from index \<open>arrc\<close> on: it stops at
  the first null slot, and faults when the block ends before one is found. The counter is
  an \<^verbatim>\<open>int\<close> in C and a natural number here: the two differ only on a list of
  \<open>2\<^sup>3\<^sup>1\<close> entries or more, which is outside this model.
\<close>

fun count_from :: "ptr list \<Rightarrow> nat \<Rightarrow> fault + nat" where
  "count_from [] arrc = Inl BadAccess"
| "count_from (x # xs) arrc = (if x \<noteq> NULL then count_from xs (Suc arrc) else Inr arrc)"

definition process_array_count :: "ptr \<Rightarrow> heap \<Rightarrow> fault + nat" where
  "process_array_count arr h =
     (if arr \<noteq> NULL then bindF (load_ptrs arr h) (\<lambda>ps. count_from ps 0) else Inr 0)"

text \<open>
  The loop \<^verbatim>\<open>for (i = 0; i < count; i++) { free((*arr)[i]); (*arr)[i] = NULL; }\<close>, with
  the number of iterations still to run as its third argument.
\<close>

fun free_elements :: "ptr \<Rightarrow> nat \<Rightarrow> nat \<Rightarrow> heap \<Rightarrow> fault + heap" where
  "free_elements a i 0 h = Inr h"
| "free_elements a i (Suc n) h =
     bindF (read_slot a i h) (\<lambda>q.
     bindF (free q h) (\<lambda>h1.
     bindF (write_slot a i NULL h1) (\<lambda>h2.
     free_elements a (Suc i) n h2)))"

text \<open>
  \<^verbatim>\<open>_process_array_clear(char*** arr)\<close>. The reference \<open>arr\<close> is \<open>None\<close> when it is null and
  \<open>Some a\<close> when it refers to a cell holding the list pointer \<open>a\<close>; the result carries the
  new content of that cell.
\<close>

definition process_array_clear :: "ptr option \<Rightarrow> heap \<Rightarrow> fault + (ptr option \<times> heap)" where
  "process_array_clear arr h =
     (case arr of
        None \<Rightarrow> Inr (None, h)
      | Some a \<Rightarrow>
          bindF (process_array_count a h) (\<lambda>count.
          bindF (free_elements a 0 count h) (\<lambda>h1.
          bindF (free a h1) (\<lambda>h2.
          Inr (Some NULL, h2)))))"

text \<open>\<^verbatim>\<open>_process_string_copy(char** dest, const char* src)\<close>; the result carries \<open>*dest\<close>.\<close>

definition process_string_copy :: "ptr \<Rightarrow> heap \<Rightarrow> fault + (ptr \<times> heap)" where
  "process_string_copy src h =
     bindF (strlen src h) (\<lambda>n.
       let (d, h1) = calloc (n + 1) h in
       bindF (strlen src h1) (\<lambda>m.
       bindF (memcpy d src m h1) (\<lambda>h2.
       Inr (d, h2))))"

text \<open>
  \<^verbatim>\<open>_process_array_push(char*** arr, const char* item)\<close>, on the list pointer \<open>a\<close> that
  the cell \<open>*arr\<close> holds; the result carries the new content of that cell.
\<close>

definition process_array_push :: "ptr \<Rightarrow> ptr \<Rightarrow> heap \<Rightarrow> fault + (ptr \<times> heap)" where
  "process_array_push a item h =
     bindF (process_array_count a h) (\<lambda>arrc.
     bindF (realloc a (arrc + 2) h) (\<lambda>(a1, h1).
     bindF (process_string_copy item h1) (\<lambda>(s, h2).
     bindF (write_slot a1 arrc s h2) (\<lambda>h3.
     bindF (write_slot a1 (arrc + 1) NULL h3) (\<lambda>h4.
     Inr (a1, h4))))))"

definition process_add_arg_A :: "ptr \<Rightarrow> ptr \<Rightarrow> heap \<Rightarrow> fault + heap" where
  "process_add_arg_A p arg h =
     bindF (load_proc p h) (\<lambda>P.
     bindF (process_array_push (argv P) arg h) (\<lambda>(a, h1).
     update_proc p (\<lambda>P1. P1\<lparr>argv := a\<rparr>) h1))"

definition process_add_env_A :: "ptr \<Rightarrow> ptr \<Rightarrow> heap \<Rightarrow> fault + heap" where
  "process_add_env_A p env h =
     bindF (load_proc p h) (\<lambda>P.
     bindF (process_array_push (envp P) env h) (\<lambda>(a, h1).
     update_proc p (\<lambda>P1. P1\<lparr>envp := a\<rparr>) h1))"

text \<open>
  The loops of \<^verbatim>\<open>process_add_args\<close> and \<^verbatim>\<open>process_add_envs\<close>, from index \<open>i\<close> on. The
  caller's array is read again from memory in every iteration, as in the source.
\<close>

function add_args_loop_A :: "ptr \<Rightarrow> ptr \<Rightarrow> nat \<Rightarrow> heap \<Rightarrow> fault + heap" where
  "add_args_loop_A p args i h =
     (if args \<noteq> NULL then
        (case read_slot args i h of
           Inl e \<Rightarrow> Inl e
         | Inr q \<Rightarrow>
             if q \<noteq> NULL then
               (case process_add_arg_A p q h of
                  Inl e \<Rightarrow> Inl e
                | Inr h1 \<Rightarrow> add_args_loop_A p args (Suc i) h1)
             else Inr h)
      else Inr h)"
  by pat_completeness auto

function add_envs_loop_A :: "ptr \<Rightarrow> ptr \<Rightarrow> nat \<Rightarrow> heap \<Rightarrow> fault + heap" where
  "add_envs_loop_A p envs i h =
     (if envs \<noteq> NULL then
        (case read_slot envs i h of
           Inl e \<Rightarrow> Inl e
         | Inr q \<Rightarrow>
             if q \<noteq> NULL then
               (case process_add_env_A p q h of
                  Inl e \<Rightarrow> Inl e
                | Inr h1 \<Rightarrow> add_envs_loop_A p envs (Suc i) h1)
             else Inr h)
      else Inr h)"
  by pat_completeness auto

definition process_add_args_A :: "ptr \<Rightarrow> ptr \<Rightarrow> heap \<Rightarrow> fault + heap" where
  "process_add_args_A p args h = add_args_loop_A p args 0 h"

definition process_add_envs_A :: "ptr \<Rightarrow> ptr \<Rightarrow> heap \<Rightarrow> fault + heap" where
  "process_add_envs_A p envs h = add_envs_loop_A p envs 0 h"

definition process_clear_argv_A :: "ptr \<Rightarrow> heap \<Rightarrow> fault + heap" where
  "process_clear_argv_A p h =
     bindF (load_proc p h) (\<lambda>P.
     bindF (process_array_clear (Some (argv P)) h) (\<lambda>(r, h1).
     bindF (update_proc p (\<lambda>P1. P1\<lparr>argv := (case r of Some a \<Rightarrow> a | None \<Rightarrow> argv P1)\<rparr>) h1) (\<lambda>h2.
     update_proc p (\<lambda>P2. P2\<lparr>argv := NULL\<rparr>) h2)))"

definition process_clear_envp_A :: "ptr \<Rightarrow> heap \<Rightarrow> fault + heap" where
  "process_clear_envp_A p h =
     bindF (load_proc p h) (\<lambda>P.
     bindF (process_array_clear (Some (envp P)) h) (\<lambda>(r, h1).
     bindF (update_proc p (\<lambda>P1. P1\<lparr>envp := (case r of Some a \<Rightarrow> a | None \<Rightarrow> envp P1)\<rparr>) h1) (\<lambda>h2.
     update_proc p (\<lambda>P2. P2\<lparr>envp := NULL\<rparr>) h2)))"

subsection \<open>String lists (listing B)\<close>

definition process_add_arg_B :: "ptr \<Rightarrow> ptr \<Rightarrow> heap \<Rightarrow> fault + heap" where
  "process_add_arg_B p arg h =
     bindF (load_proc p h) (\<lambda>P.
     bindF (if argv P \<noteq> NULL then bindF (load_ptrs (argv P) h) (\<lambda>ps. count_from ps 0)
            else Inr 0) (\<lambda>argc.
     bindF (realloc (argv P) (argc + 2) h) (\<lambda>(a1, h1).
     bindF (update_proc p (\<lambda>P1. P1\<lparr>argv := a1\<rparr>) h1) (\<lambda>h2.
     bindF (strlen arg h2) (\<lambda>n.
       let (s, h3) = calloc (n + 1) h2 in
       bindF (write_slot a1 argc s h3) (\<lambda>h4.
       bindF (strlen arg h4) (\<lambda>m.
       bindF (read_slot a1 argc h4) (\<lambda>d.
       bindF (memcpy d arg m h4) (\<lambda>h5.
       write_slot a1 (argc + 1) NULL h5)))))))))"

definition process_add_env_B :: "ptr \<Rightarrow> ptr \<Rightarrow> heap \<Rightarrow> fault + heap" where
  "process_add_env_B p env h =
     bindF (load_proc p h) (\<lambda>P.
     bindF (if envp P \<noteq> NULL then bindF (load_ptrs (envp P) h) (\<lambda>ps. count_from ps 0)
            else Inr 0) (\<lambda>envc.
     bindF (realloc (envp P) (envc + 2) h) (\<lambda>(a1, h1).
     bindF (update_proc p (\<lambda>P1. P1\<lparr>envp := a1\<rparr>) h1) (\<lambda>h2.
     bindF (strlen env h2) (\<lambda>n.
       let (s, h3) = calloc (n + 1) h2 in
       bindF (write_slot a1 envc s h3) (\<lambda>h4.
       bindF (strlen env h4) (\<lambda>m.
       bindF (read_slot a1 envc h4) (\<lambda>d.
       bindF (memcpy d env m h4) (\<lambda>h5.
       write_slot a1 (envc + 1) NULL h5)))))))))"

definition process_clear_argv_B :: "ptr \<Rightarrow> heap \<Rightarrow> fault + heap" where
  "process_clear_argv_B p h =
     bindF (load_proc p h) (\<lambda>P.
       if argv P \<noteq> NULL then
         bindF (load_ptrs (argv P) h) (\<lambda>ps.
         bindF (count_from ps 0) (\<lambda>argc.
         bindF (free_elements (argv P) 0 argc h) (\<lambda>h1.
         bindF (free (argv P) h1) (\<lambda>h2.
         update_proc p (\<lambda>P1. P1\<lparr>argv := NULL\<rparr>) h2))))
       else Inr h)"

definition process_clear_envp_B :: "ptr \<Rightarrow> heap \<Rightarrow> fault + heap" where
  "process_clear_envp_B p h =
     bindF (load_proc p h) (\<lambda>P.
       if envp P \<noteq> NULL then
         bindF (load_ptrs (envp P) h) (\<lambda>ps.
         bindF (count_from ps 0) (\<lambda>envc.
         bindF (free_elements (envp P) 0 envc h) (\<lambda>h1.
         bindF (free (envp P) h1) (\<lambda>h2.
         update_proc p (\<lambda>P1. P1\<lparr>envp := NULL\<rparr>) h2))))
       else Inr h)"

text \<open>The two loops inside \<^verbatim>\<open>process_create\<close> of listing B, from index \<open>i\<close> on.\<close>

function add_args_loop_B :: "ptr \<Rightarrow> ptr \<Rightarrow> nat \<Rightarrow> heap \<Rightarrow> fault + heap" where
  "add_args_loop_B p args i h =
     (if args \<noteq> NULL then
        (case read_slot args i h of
           Inl e \<Rightarrow> Inl e
         | Inr q \<Rightarrow>
             if q \<noteq> NULL then
               (case process_add_arg_B p q h of
                  Inl e \<Rightarrow> Inl e
                | Inr h1 \<Rightarrow> add_args_loop_B p args (Suc i) h1)
             else Inr h)
      else Inr h)"
  by pat_completeness auto

function add_envs_loop_B :: "ptr \<Rightarrow> ptr \<Rightarrow> nat \<Rightarrow> heap \<Rightarrow> fault + heap" where
  "add_envs_loop_B p envs i h =
     (if envs \<noteq> NULL then
        (case read_slot envs i h of
           Inl e \<Rightarrow> Inl e
         | Inr q \<Rightarrow>
             if q \<noteq> NULL then
               (case process_add_env_B p q h of
                  Inl e \<Rightarrow> Inl e
                | Inr h1 \<Rightarrow> add_envs_loop_B p envs (Suc i) h1)
             else Inr h)
      else Inr h)"
  by pat_completeness auto

subsection \<open>process_close\<close>

text \<open>The same text in both listings. The result is the system calls made and the new heap.\<close>

definition process_close :: "ptr \<Rightarrow> heap \<Rightarrow> fault + (syscall list \<times> heap)" where
  "process_close p h =
     bindF (load_proc p h) (\<lambda>P0.
       let (P1, t1) = (if in' P0 \<noteq> -1 then (P0\<lparr>in' := -1\<rparr>, [Close (in' P0)]) else (P0, []));
           (P2, t2) = (if out P1 \<noteq> -1 then (P1\<lparr>out := -1\<rparr>, [Close (out P1)]) else (P1, []));
           (P3, t3) = (if err P2 \<noteq> -1 then (P2\<lparr>err := -1\<rparr>, [Close (err P2)]) else (P2, []));
           (P4, t4) = (if pid P3 \<noteq> -1
                       then (P3\<lparr>pid := -1\<rparr>, [Kill (pid P3) SIGKILL, Waitpid (pid P3) NULL WNOHANG])
                       else (P3, []))
       in Inr (t1 @ t2 @ t3 @ t4, store p (Struct P4) h))"

subsection \<open>process_open\<close>

definition process_open_A ::
  "launch_env \<Rightarrow> ptr \<Rightarrow> heap \<Rightarrow> fault + (outcome \<times> syscall list \<times> heap)" where
  "process_open_A e p h =
     bindF (load_proc p h) (\<lambda>P0.
       if pid P0 = -1 then
         let ipipe = pipe_call (ipipe_reply e) (ipipe_uninit e);
             opipe = pipe_call (opipe_reply e) (opipe_uninit e);
             epipe = pipe_call (epipe_reply e) (epipe_uninit e);
             t0 = [Pipe (ipipe_reply e), Pipe (opipe_reply e), Pipe (epipe_reply e),
                   Fork (fork_reply e)];
             P1 = P0\<lparr>pid := fork_reply e\<rparr>
         in if pid P1 = 0 then
              let t1 = [Close (snd ipipe), Close (fst opipe), Close (fst epipe),
                        Dup2 (fst ipipe) STDIN_FILENO,
                        Dup2 (snd opipe) STDOUT_FILENO,
                        Dup2 (snd epipe) STDERR_FILENO,
                        Close (fst ipipe), Close (snd opipe), Close (snd epipe),
                        Setsid,
                        Execve (path P1) (argv P1) (envp P1)]
              in if execve_succeeds e
                 then Inr (ImageReplaced, t0 @ t1, store p (Struct P1) h)
                 else Inr (Exited 1, t0 @ t1 @ [Exit 1], store p (Struct P1) h)
            else
              let t1 = [Close (fst ipipe), Close (snd opipe), Close (snd epipe)];
                  P2 = P1\<lparr>in' := snd ipipe, out := fst opipe, err := fst epipe\<rparr>;
                  retVal = (if pid P2 \<noteq> -1 then 1 else 0)
              in Inr (Returns retVal, t0 @ t1, store p (Struct P2) h)
       else Inr (Returns 0, [], h))"

definition process_open_B ::
  "launch_env \<Rightarrow> ptr \<Rightarrow> heap \<Rightarrow> fault + (outcome \<times> syscall list \<times> heap)" where
  "process_open_B e p h =
     bindF (load_proc p h) (\<lambda>P0.
       if pid P0 = -1 then
         let ipipe = pipe_call (ipipe_reply e) (ipipe_uninit e);
             opipe = pipe_call (opipe_reply e) (opipe_uninit e);
             epipe = pipe_call (epipe_reply e) (epipe_uninit e);
             t0 = [Pipe (ipipe_reply e), Pipe (opipe_reply e), Pipe (epipe_reply e),
                   Fork (fork_reply e)];
             P1 = P0\<lparr>pid := fork_reply e\<rparr>
         in if pid P1 = 0 then
              let t1 = [Close (snd ipipe), Close (fst opipe), Close (fst epipe),
                        Dup2 (fst ipipe) STDIN_FILENO,
                        Dup2 (snd opipe) STDOUT_FILENO,
                        Dup2 (snd epipe) STDERR_FILENO,
                        Close (fst ipipe), Close (snd opipe), Close (snd epipe),
                        Execve (path P1) (argv P1) (envp P1)]
              in if execve_succeeds e
                 then Inr (ImageReplaced, t0 @ t1, store p (Struct P1) h)
                 else Inr (Exited 1, t0 @ t1 @ [Exit 1], store p (Struct P1) h)
            else
              let t1 = [Close (fst ipipe), Close (snd opipe), Close (snd epipe)];
                  P2 = P1\<lparr>in' := snd ipipe, out := fst opipe, err := fst epipe\<rparr>;
                  retVal = (if pid P2 \<noteq> -1 then 1 else 0)
              in Inr (Returns retVal, t0 @ t1, store p (Struct P2) h)
       else Inr (Returns 0, [], h))"

subsection \<open>process_create and process_free\<close>

text \<open>
  \<^verbatim>\<open>malloc(sizeof(struct Process))\<close> followed by the seven field initialisations is one
  allocation of the initialised structure.
\<close>

definition process_create_A :: "ptr \<Rightarrow> ptr \<Rightarrow> ptr \<Rightarrow> heap \<Rightarrow> fault + (ptr \<times> heap)" where
  "process_create_A path_arg argv_arg envp_arg h =
     (let (p, h1) = alloc (Struct \<lparr>path = NULL, argv = NULL, envp = NULL,
                                   in' = -1, out = -1, err = -1, pid = -1\<rparr>) h in
      bindF (process_string_copy path_arg h1) (\<lambda>(s, h2).
      bindF (update_proc p (\<lambda>P. P\<lparr>path := s\<rparr>) h2) (\<lambda>h3.
      bindF (process_add_args_A p argv_arg h3) (\<lambda>h4.
      bindF (process_add_envs_A p envp_arg h4) (\<lambda>h5.
      Inr (p, h5))))))"

definition process_create_B :: "ptr \<Rightarrow> ptr \<Rightarrow> ptr \<Rightarrow> heap \<Rightarrow> fault + (ptr \<times> heap)" where
  "process_create_B path_arg argv_arg envp_arg h =
     (let (p, h1) = alloc (Struct \<lparr>path = NULL, argv = NULL, envp = NULL,
                                   in' = -1, out = -1, err = -1, pid = -1\<rparr>) h in
      bindF (strlen path_arg h1) (\<lambda>n.
        let (s, h2) = calloc (n + 1) h1 in
        bindF (update_proc p (\<lambda>P. P\<lparr>path := s\<rparr>) h2) (\<lambda>h3.
        bindF (strlen path_arg h3) (\<lambda>m.
        bindF (load_proc p h3) (\<lambda>P.
        bindF (memcpy (path P) path_arg m h3) (\<lambda>h4.
        bindF (process_add_arg_B p path_arg h4) (\<lambda>h5.
        bindF (add_args_loop_B p argv_arg 0 h5) (\<lambda>h6.
        bindF (add_envs_loop_B p envp_arg 0 h6) (\<lambda>h7.
        Inr (p, h7))))))))))"

text \<open>In listing A the call of \<^verbatim>\<open>process_close\<close> is commented out.\<close>

definition process_free_A :: "ptr \<Rightarrow> heap \<Rightarrow> fault + (syscall list \<times> heap)" where
  "process_free_A p h =
     (if p \<noteq> NULL then
        bindF (load_proc p h) (\<lambda>P.
        bindF (if path P \<noteq> NULL
               then bindF (free (path P) h) (update_proc p (\<lambda>P1. P1\<lparr>path := NULL\<rparr>))
               else Inr h) (\<lambda>h1.
        bindF (process_clear_argv_A p h1) (\<lambda>h2.
        bindF (process_clear_envp_A p h2) (\<lambda>h3.
        bindF (free p h3) (\<lambda>h4.
        Inr ([], h4))))))
      else Inr ([], h))"

definition process_free_B :: "ptr \<Rightarrow> heap \<Rightarrow> fault + (syscall list \<times> heap)" where
  "process_free_B p h =
     (if p \<noteq> NULL then
        bindF (process_close p h) (\<lambda>(t, h0).
        bindF (load_proc p h0) (\<lambda>P.
        bindF (if path P \<noteq> NULL
               then bindF (free (path P) h0) (update_proc p (\<lambda>P1. P1\<lparr>path := NULL\<rparr>))
               else Inr h0) (\<lambda>h1.
        bindF (process_clear_argv_B p h1) (\<lambda>h2.
        bindF (process_clear_envp_B p h2) (\<lambda>h3.
        bindF (free p h3) (\<lambda>h4.
        Inr (t, h4)))))))
      else Inr ([], h))"

subsection \<open>Reading a list back\<close>

text \<open>
  What a reader of the handle sees: the characters of a string up to its zero byte, the
  pointers of a list up to its sentinel, and the strings those pointers lead to.
\<close>

definition c_string :: "ptr \<Rightarrow> heap \<Rightarrow> fault + string" where
  "c_string s h =
     bindF (load_chars s h) (\<lambda>cs.
       if CHR 0x00 \<in> set cs then Inr (takeWhile (\<lambda>c. c \<noteq> CHR 0x00) cs) else Inl BadAccess)"

definition entries :: "ptr \<Rightarrow> heap \<Rightarrow> fault + ptr list" where
  "entries a h =
     (if a = NULL then Inr []
      else bindF (load_ptrs a h) (\<lambda>ps.
             if NULL \<in> set ps then Inr (takeWhile (\<lambda>q. q \<noteq> NULL) ps) else Inl BadAccess))"

fun c_strings :: "ptr list \<Rightarrow> heap \<Rightarrow> fault + string list" where
  "c_strings [] h = Inr []"
| "c_strings (q # qs) h =
     bindF (c_string q h) (\<lambda>s. bindF (c_strings qs h) (\<lambda>ss. Inr (s # ss)))"

definition strings :: "ptr \<Rightarrow> heap \<Rightarrow> fault + string list" where
  "strings a h = bindF (entries a h) (\<lambda>qs. c_strings qs h)"

text \<open>
  A valid string is a live character block with a zero byte. A list the handle may clear
  is absent, or a live array with a sentinel whose entries are distinct valid strings.
\<close>

definition is_string :: "ptr \<Rightarrow> heap \<Rightarrow> bool" where
  "is_string q h = (case c_string q h of Inl e \<Rightarrow> False | Inr s \<Rightarrow> True)"

definition owned_list :: "ptr \<Rightarrow> heap \<Rightarrow> bool" where
  "owned_list a h =
     (a = NULL \<or>
      (case entries a h of
         Inl e \<Rightarrow> False
       | Inr qs \<Rightarrow> distinct qs \<and> list_all (\<lambda>q. is_string q h) qs))"

text \<open>
  The list \<open>a\<close> holds exactly the entries \<open>qs\<close>: it is absent and \<open>qs\<close> is empty, or its
  block is \<open>qs\<close> followed by the sentinel and nothing else.
\<close>

definition lst :: "ptr \<Rightarrow> heap \<Rightarrow> ptr list \<Rightarrow> bool" where
  "lst a h qs \<longleftrightarrow>
     (a = NULL \<and> qs = []) \<or> (load_ptrs a h = Inr (qs @ [NULL]) \<and> NULL \<notin> set qs)"

abbreviation content :: "char list \<Rightarrow> char list" where
  "content cs \<equiv> takeWhile (\<lambda>c. c \<noteq> CHR 0x00) cs"

text \<open>A caller appending the strings \<open>items\<close> one after the other to the list \<open>a\<close>.\<close>

fun push_all :: "ptr \<Rightarrow> ptr list \<Rightarrow> heap \<Rightarrow> fault + (ptr \<times> heap)" where
  "push_all a [] h = Inr (a, h)"
| "push_all a (item # items) h =
     bindF (process_array_push a item h) (\<lambda>(a1, h1). push_all a1 items h1)"

subsection \<open>The life of a handle\<close>

text \<open>
  The calls a caller can make on a handle after creating it (listing A), and their effect
  on memory in the caller's process. A call that faults has no next state, and neither
  has a launch in the child: there \<^verbatim>\<open>process_open\<close> never returns.
\<close>

datatype call = Add_arg ptr | Add_env ptr | Launch launch_env | Close_handle | Free_handle

fun run_call :: "ptr \<Rightarrow> call \<Rightarrow> heap \<Rightarrow> heap option" where
  "run_call p (Add_arg s) h =
     (case process_add_arg_A p s h of Inl e \<Rightarrow> None | Inr h1 \<Rightarrow> Some h1)"
| "run_call p (Add_env s) h =
     (case process_add_env_A p s h of Inl e \<Rightarrow> None | Inr h1 \<Rightarrow> Some h1)"
| "run_call p (Launch e) h =
     (case process_open_A e p h of
        Inl e \<Rightarrow> None
      | Inr (Returns r, t, h1) \<Rightarrow> Some h1
      | Inr (ImageReplaced, t, h1) \<Rightarrow> None
      | Inr (Exited r, t, h1) \<Rightarrow> None)"
| "run_call p Close_handle h =
     (case process_close p h of Inl e \<Rightarrow> None | Inr (t, h1) \<Rightarrow> Some h1)"
| "run_call p Free_handle h =
     (case process_free_A p h of Inl e \<Rightarrow> None | Inr (t, h1) \<Rightarrow> Some h1)"

fun run_calls :: "ptr \<Rightarrow> call list \<Rightarrow> heap \<Rightarrow> heap option" where
  "run_calls p [] h = Some h"
| "run_calls p (c # cs) h =
     (case run_call p c h of None \<Rightarrow> None | Some h1 \<Rightarrow> run_calls p cs h1)"

definition lifecycle :: "ptr \<Rightarrow> ptr \<Rightarrow> ptr \<Rightarrow> call list \<Rightarrow> heap \<Rightarrow> (ptr \<times> heap) option" where
  "lifecycle path_arg argv_arg envp_arg cs h =
     (case process_create_A path_arg argv_arg envp_arg h of
        Inl e \<Rightarrow> None
      | Inr (p, h1) \<Rightarrow>
          (case run_calls p cs h1 of None \<Rightarrow> None | Some h2 \<Rightarrow> Some (p, h2)))"

text \<open>
  The invariant of the specification: the process identifier and the three descriptors
  are all set or all unset.
\<close>

definition valid_together :: "Process \<Rightarrow> bool" where
  "valid_together P =
     ((pid P \<noteq> -1 \<and> in' P \<noteq> -1 \<and> out P \<noteq> -1 \<and> err P \<noteq> -1) \<or>
      (pid P = -1 \<and> in' P = -1 \<and> out P = -1 \<and> err P = -1))"

text \<open>
  A \<^verbatim>\<open>pipe\<close> call that succeeds stores two descriptors, which are not negative;
  \<open>launches_ok\<close> says that the three \<^verbatim>\<open>pipe\<close> calls of every launch in a list of calls
  succeed.
\<close>

definition pipe_ok :: "(int \<times> int) option \<Rightarrow> bool" where
  "pipe_ok reply = (case reply of None \<Rightarrow> False | Some (r, w) \<Rightarrow> 0 \<le> r \<and> 0 \<le> w)"

definition pipes_ok :: "launch_env \<Rightarrow> bool" where
  "pipes_ok e = (pipe_ok (ipipe_reply e) \<and> pipe_ok (opipe_reply e) \<and> pipe_ok (epipe_reply e))"

fun launches_ok :: "call list \<Rightarrow> bool" where
  "launches_ok [] = True"
| "launches_ok (Launch e # cs) = (pipes_ok e \<and> launches_ok cs)"
| "launches_ok (c # cs) = launches_ok cs"

text \<open>
  Vocabulary of the proofs about the life of a handle: \<open>same_fds p h h1\<close> says that a
  handle at \<open>p\<close> in \<open>h1\<close> was a handle in \<open>h\<close> with the same process identifier and
  descriptors; \<open>guarded p h\<close> says that the handle at \<open>p\<close>, if there is one, has its
  descriptors set whenever its process identifier is set.
\<close>

definition same_fds :: "ptr \<Rightarrow> heap \<Rightarrow> heap \<Rightarrow> bool" where
  "same_fds p h h1 \<longleftrightarrow>
     (\<forall>P1. load_proc p h1 = Inr P1 \<longrightarrow>
        (\<exists>P. load_proc p h = Inr P \<and> in' P1 = in' P \<and> out P1 = out P \<and>
             err P1 = err P \<and> pid P1 = pid P))"

definition guarded :: "ptr \<Rightarrow> heap \<Rightarrow> bool" where
  "guarded p h =
     (case load_proc p h of
        Inl e \<Rightarrow> True
      | Inr P \<Rightarrow> pid P = -1 \<or> (in' P \<noteq> -1 \<and> out P \<noteq> -1 \<and> err P \<noteq> -1))"

text \<open>
  Vocabulary of the proofs about \<^verbatim>\<open>process_create\<close>: \<open>appends_to getf setf add\<close> says
  that \<open>add\<close> is \<^verbatim>\<open>_process_array_push\<close> on the list field read by \<open>getf\<close> and written
  by \<open>setf\<close>; \<open>agree n h h'\<close> says that the first \<open>n\<close> blocks of \<open>h\<close> and \<open>h'\<close> are the
  same.
\<close>

definition appends_to ::
  "(Process \<Rightarrow> ptr) \<Rightarrow> (ptr \<Rightarrow> Process \<Rightarrow> Process) \<Rightarrow> (ptr \<Rightarrow> ptr \<Rightarrow> heap \<Rightarrow> fault + heap) \<Rightarrow> bool" where
  "appends_to getf setf add \<longleftrightarrow>
     (\<forall>p item h P qs. load_proc p h = Inr P \<longrightarrow> lst (getf P) h qs \<longrightarrow> is_string item h \<longrightarrow>
        (\<exists>a1 h1. process_array_push (getf P) item h = Inr (a1, h1)
           \<and> add p item h = Inr (store p (Struct (setf a1 P)) h1)))"

definition agree :: "nat \<Rightarrow> heap \<Rightarrow> heap \<Rightarrow> bool" where
  "agree n h h' \<longleftrightarrow> n \<le> length h \<and> n \<le> length h' \<and> take n h' = take n h"

text \<open>
  Vocabulary of the termination proofs: \<open>ext h h1\<close> says that every pointer array of
  \<open>h1\<close> at an address that exists in \<open>h\<close> was an array of the same size in \<open>h\<close>.
\<close>

definition ext :: "heap \<Rightarrow> heap \<Rightarrow> bool" where
  "ext h h1 \<longleftrightarrow> length h \<le> length h1 \<and>
     (\<forall>i<length h. \<forall>ps1. h1 ! i = Some (Ptrs ps1) \<longrightarrow>
        (\<exists>ps. h ! i = Some (Ptrs ps) \<and> length ps = length ps1))"

definition slots :: "ptr \<Rightarrow> heap \<Rightarrow> nat" where
  "slots a h = (case load_ptrs a h of Inr ps \<Rightarrow> length ps | Inl e \<Rightarrow> 0)"

subsection \<open>Example inputs\<close>

text \<open>
  Caller memory: the strings \<^verbatim>\<open>"/bin/echo"\<close>, \<^verbatim>\<open>"hello"\<close> and \<^verbatim>\<open>"A=1"\<close> at addresses
  1, 2 and 3, the array \<^verbatim>\<open>{"hello", NULL}\<close> at address 4 and the array
  \<^verbatim>\<open>{"A=1", NULL}\<close> at address 5.
\<close>

definition caller_memory :: heap where
  "caller_memory =
     [Some (Chars (''/bin/echo'' @ [CHR 0x00])),
      Some (Chars (''hello'' @ [CHR 0x00])),
      Some (Chars (''A=1'' @ [CHR 0x00])),
      Some (Ptrs [2, NULL]),
      Some (Ptrs [3, NULL])]"

text \<open>A handle at address 1 that was never launched, and the same handle while running.\<close>

definition unlaunched :: Process where
  "unlaunched = \<lparr>path = NULL, argv = NULL, envp = NULL,
                  in' = -1, out = -1, err = -1, pid = -1\<rparr>"

definition running :: Process where
  "running = \<lparr>path = NULL, argv = NULL, envp = NULL,
               in' = 4, out = 5, err = 7, pid = 4242\<rparr>"

text \<open>
  Answers of the system: every call succeeds and the caller is the parent; \<^verbatim>\<open>fork\<close>
  fails; the three \<^verbatim>\<open>pipe\<close> calls fail over arrays that happen to hold -1; the caller is
  the child and \<^verbatim>\<open>execve\<close> fails.
\<close>

definition env_parent :: launch_env where
  "env_parent = \<lparr>ipipe_uninit = (0, 0), opipe_uninit = (0, 0), epipe_uninit = (0, 0),
                  ipipe_reply = Some (3, 4), opipe_reply = Some (5, 6),
                  epipe_reply = Some (7, 8), fork_reply = 4242, execve_succeeds = True\<rparr>"

definition env_fork_fails :: launch_env where
  "env_fork_fails = env_parent\<lparr>fork_reply := -1\<rparr>"

definition env_pipes_fail :: launch_env where
  "env_pipes_fail = env_parent\<lparr>ipipe_uninit := (-1, -1), opipe_uninit := (-1, -1),
                                epipe_uninit := (-1, -1), ipipe_reply := None,
                                opipe_reply := None, epipe_reply := None\<rparr>"

definition env_child :: launch_env where
  "env_child = env_parent\<lparr>fork_reply := 0, execve_succeeds := False\<rparr>"

text \<open>
  Memory after \<^verbatim>\<open>process_create("/bin/echo", {"hello", NULL}, {"A=1", NULL})\<close> of
  listing A on the caller memory above: the handle is at address 6.
\<close>

definition created_handle :: Process where
  "created_handle = \<lparr>path = 7, argv = 8, envp = 10,
                      in' = -1, out = -1, err = -1, pid = -1\<rparr>"

definition created_memory :: heap where
  "created_memory =
     caller_memory @
     [Some (Struct created_handle),
      Some (Chars (''/bin/echo'' @ [CHR 0x00])),
      Some (Ptrs [9, NULL]),
      Some (Chars (''hello'' @ [CHR 0x00])),
      Some (Ptrs [11, NULL]),
      Some (Chars (''A=1'' @ [CHR 0x00]))]"

text \<open>
  Memory after \<^verbatim>\<open>process_add_arg(p, "A=1")\<close> and a successful \<^verbatim>\<open>process_open\<close> on that
  handle: the argument array has moved to address 12.
\<close>

definition launched_handle :: Process where
  "launched_handle = \<lparr>path = 7, argv = 12, envp = 10,
                       in' = 4, out = 5, err = 7, pid = 4242\<rparr>"

definition launched_memory :: heap where
  "launched_memory =
     caller_memory @
     [Some (Struct launched_handle),
      Some (Chars (''/bin/echo'' @ [CHR 0x00])),
      None,
      Some (Chars (''hello'' @ [CHR 0x00])),
      Some (Ptrs [11, NULL]),
      Some (Chars (''A=1'' @ [CHR 0x00])),
      Some (Ptrs [9, 13, NULL]),
      Some (Chars (''A=1'' @ [CHR 0x00]))]"


section \<open>Properties\<close>

subsection \<open>Basic facts about memory\<close>

lemma bindF_Inl: "bindF (Inl e) f = Inl e"
  by (simp add: bindF_def)

lemma bindF_Inr: "bindF (Inr x) f = f x"
  by (simp add: bindF_def)

lemma bindF_eq_Inr: "bindF m f = Inr r \<longleftrightarrow> (\<exists>x. m = Inr x \<and> f x = Inr r)"
  by (cases m) (simp_all add: bindF_def)

lemma load_Inr: "load a h = Inr b \<longleftrightarrow> 0 < a \<and> a \<le> length h \<and> h ! (a - 1) = Some b"
  by (auto simp: load_def split: option.splits)

lemma load_ptrs_Inr:
  "load_ptrs a h = Inr ps \<longleftrightarrow> 0 < a \<and> a \<le> length h \<and> h ! (a - 1) = Some (Ptrs ps)"
  by (auto simp: load_ptrs_def load_def split: sum.splits block.splits option.splits)

lemma load_chars_Inr:
  "load_chars a h = Inr cs \<longleftrightarrow> 0 < a \<and> a \<le> length h \<and> h ! (a - 1) = Some (Chars cs)"
  by (auto simp: load_chars_def load_def split: sum.splits block.splits option.splits)

lemma load_proc_Inr:
  "load_proc a h = Inr P \<longleftrightarrow> 0 < a \<and> a \<le> length h \<and> h ! (a - 1) = Some (Struct P)"
  by (auto simp: load_proc_def load_def split: sum.splits block.splits option.splits)

lemma load_null:
  "load NULL h = Inl NullDeref" "load_ptrs NULL h = Inl NullDeref"
  "load_chars NULL h = Inl NullDeref" "load_proc NULL h = Inl NullDeref"
  by (simp_all add: load_def load_ptrs_def load_chars_def load_proc_def)

lemma load_proc_store_same:
  "load_proc p h = Inr P \<Longrightarrow> load_proc p (store p (Struct Q) h) = Inr Q"
  by (auto simp: load_proc_Inr store_def)

lemma store_id: "load_proc p h = Inr P \<Longrightarrow> store p (Struct P) h = h"
  by (auto simp: load_proc_Inr store_def list_update_same_conv)

lemma store_store: "store p b (store p c h) = store p b h"
  by (simp add: store_def)

subsection \<open>Termination of the copying loops\<close>

text \<open>
  No operation of the library changes the number of slots of a pointer array that already
  exists: an array is only written slot by slot, or released. So the loops over the
  caller's array end, at its sentinel or with a fault.
\<close>

lemma ext_trans: "ext h h1 \<Longrightarrow> ext h1 h2 \<Longrightarrow> ext h h2"
  unfolding ext_def by (metis (no_types, lifting) le_trans less_le_trans)

lemma ext_calloc_snd: "ext h (snd (calloc n h))"
  by (simp add: calloc_def alloc_def ext_def nth_append)

lemma ext_memcpy: "memcpy d s n h = Inr h1 \<Longrightarrow> ext h h1"
  by (auto simp: memcpy_def bindF_eq_Inr load_chars_Inr store_def ext_def nth_list_update
      split: if_splits)

lemma ext_write_slot: "write_slot a i v h = Inr h1 \<Longrightarrow> ext h h1"
  by (auto simp: write_slot_def bindF_eq_Inr load_ptrs_Inr store_def ext_def nth_list_update
      split: if_splits)

lemma ext_update_proc: "update_proc p f h = Inr h1 \<Longrightarrow> ext h h1"
  by (auto simp: update_proc_def bindF_eq_Inr load_proc_Inr store_def ext_def nth_list_update
      split: if_splits)

lemma ext_realloc: "realloc a n h = Inr (a1, h1) \<Longrightarrow> ext h h1"
  by (auto simp: realloc_def bindF_eq_Inr load_ptrs_Inr alloc_def ext_def nth_list_update
      nth_append split: if_splits)

lemma ext_string_copy: "process_string_copy s h = Inr (d, h1) \<Longrightarrow> ext h h1"
  apply (clarsimp simp: process_string_copy_def bindF_eq_Inr case_prod_beta Let_def
      dest!: ext_memcpy)
  apply (meson ext_trans ext_calloc_snd)
  done

lemma ext_push: "process_array_push a item h = Inr (a1, h1) \<Longrightarrow> ext h h1"
  by (auto simp: process_array_push_def bindF_eq_Inr split: prod.splits
      dest!: ext_realloc ext_string_copy ext_write_slot intro: ext_trans)

lemma ext_add_arg_A: "process_add_arg_A p q h = Inr h1 \<Longrightarrow> ext h h1"
  by (auto simp: process_add_arg_A_def bindF_eq_Inr split: prod.splits
      dest!: ext_push ext_update_proc intro: ext_trans)

lemma ext_add_env_A: "process_add_env_A p q h = Inr h1 \<Longrightarrow> ext h h1"
  by (auto simp: process_add_env_A_def bindF_eq_Inr split: prod.splits
      dest!: ext_push ext_update_proc intro: ext_trans)

lemma ext_add_arg_B: "process_add_arg_B p q h = Inr h1 \<Longrightarrow> ext h h1"
  apply (clarsimp simp: process_add_arg_B_def bindF_eq_Inr case_prod_beta Let_def
      dest!: ext_realloc ext_update_proc ext_write_slot ext_memcpy)
  apply (meson ext_trans ext_calloc_snd)
  done

lemma ext_add_env_B: "process_add_env_B p q h = Inr h1 \<Longrightarrow> ext h h1"
  apply (clarsimp simp: process_add_env_B_def bindF_eq_Inr case_prod_beta Let_def
      dest!: ext_realloc ext_update_proc ext_write_slot ext_memcpy)
  apply (meson ext_trans ext_calloc_snd)
  done

lemma loop_measure:
  assumes "read_slot args i h = Inr q" and "ext h h1"
  shows "slots args h1 - Suc i < slots args h - i"
proof -
  from assms(1) obtain ps where ps: "load_ptrs args h = Inr ps" "i < length ps"
    by (auto simp: read_slot_def bindF_eq_Inr split: if_splits)
  then have a: "0 < args" "args \<le> length h" "h ! (args - 1) = Some (Ptrs ps)"
    by (simp_all add: load_ptrs_Inr)
  have "slots args h1 \<le> length ps"
  proof (cases "load_ptrs args h1")
    case (Inl e)
    then show ?thesis by (simp add: slots_def)
  next
    case (Inr ps1)
    then have "h1 ! (args - 1) = Some (Ptrs ps1)"
      by (simp add: load_ptrs_Inr)
    with assms(2) a have "length ps = length ps1"
      unfolding ext_def by (metis Suc_diff_1 Suc_le_lessD block.inject(2) option.inject)
    with Inr show ?thesis by (simp add: slots_def)
  qed
  with ps show ?thesis by (simp add: slots_def)
qed

termination add_args_loop_A
  by (relation "measure (\<lambda>(p, args, i, h). slots args h - i)")
     (auto intro: loop_measure ext_add_arg_A)

termination add_envs_loop_A
  by (relation "measure (\<lambda>(p, envs, i, h). slots envs h - i)")
     (auto intro: loop_measure ext_add_env_A)

termination add_args_loop_B
  by (relation "measure (\<lambda>(p, args, i, h). slots args h - i)")
     (auto intro: loop_measure ext_add_arg_B)

termination add_envs_loop_B
  by (relation "measure (\<lambda>(p, envs, i, h). slots envs h - i)")
     (auto intro: loop_measure ext_add_env_B)

subsection \<open>Launching a handle that is already running\<close>

text \<open>
  C6. When the handle's process identifier is set (not -1), \<^verbatim>\<open>process_open\<close> returns 0,
  makes no system call at all (so no pipe is created and no process is forked) and leaves
  memory, and with it the handle's process identifier and three descriptors, exactly as
  it was. This holds for both listings and for every answer the system could have given.
\<close>

theorem process_open_running_noop:
  assumes "load_proc p h = Inr P" and "pid P \<noteq> -1"
  shows "process_open_A e p h = Inr (Returns 0, [], h)
       \<and> process_open_B e p h = Inr (Returns 0, [], h)"
  using assms by (simp add: process_open_A_def process_open_B_def bindF_Inr)

theorem process_open_running_noop_witness:
  "load_proc 1 [Some (Struct \<lparr>path = NULL, argv = NULL, envp = NULL,
                              in' = 4, out = 5, err = 7, pid = 4242\<rparr>)]
     = Inr \<lparr>path = NULL, argv = NULL, envp = NULL, in' = 4, out = 5, err = 7, pid = 4242\<rparr>
   \<and> process_open_A env_parent 1 [Some (Struct \<lparr>path = NULL, argv = NULL, envp = NULL,
                                        in' = 4, out = 5, err = 7, pid = 4242\<rparr>)]
     = Inr (Returns 0, [], [Some (Struct \<lparr>path = NULL, argv = NULL, envp = NULL,
                                           in' = 4, out = 5, err = 7, pid = 4242\<rparr>)])"
proof -
  let ?P = "\<lparr>path = NULL, argv = NULL, envp = NULL, in' = 4, out = 5, err = 7, pid = 4242\<rparr>"
  have l: "load_proc 1 [Some (Struct ?P)] = Inr ?P"
    by (simp add: load_proc_def load_def)
  have r: "pid ?P \<noteq> -1" by simp
  from process_open_running_noop [OF l r, of env_parent] l show ?thesis by simp
qed

subsection \<open>process_close\<close>

lemma process_close_eq:
  assumes "load_proc p h = Inr P"
  shows "process_close p h =
           Inr ((if in' P \<noteq> -1 then [Close (in' P)] else []) @
                (if out P \<noteq> -1 then [Close (out P)] else []) @
                (if err P \<noteq> -1 then [Close (err P)] else []) @
                (if pid P \<noteq> -1
                 then [Kill (pid P) SIGKILL, Waitpid (pid P) NULL WNOHANG] else []),
                store p (Struct (P\<lparr>in' := -1, out := -1, err := -1, pid := -1\<rparr>)) h)"
  using assms by (cases P) (simp add: process_close_def bindF_Inr Let_def)

lemma process_close_unset:
  assumes "load_proc p h = Inr P"
    and "in' P = -1" and "out P = -1" and "err P = -1" and "pid P = -1"
  shows "process_close p h = Inr ([], h)"
  using assms by (simp add: process_close_def bindF_Inr Let_def store_id)

text \<open>
  C7. On every live handle \<^verbatim>\<open>process_close\<close> calls \<^verbatim>\<open>close\<close> on each of the three
  descriptors that is not -1, in the order in, out, err; if the process identifier is not
  -1 it then sends \<^verbatim>\<open>SIGKILL\<close> to it and reaps it with \<^verbatim>\<open>waitpid(pid, NULL, WNOHANG)\<close>;
  the four fields are -1 afterwards and nothing else in memory changes. On a handle whose
  four fields are already -1 (never launched, or closed before) it makes no system call
  and changes nothing, and a second \<^verbatim>\<open>process_close\<close> right after a first one is such
  a call.
\<close>

theorem process_close_resets:
  assumes "load_proc p h = Inr P"
  shows "process_close p h =
           Inr ((if in' P \<noteq> -1 then [Close (in' P)] else []) @
                (if out P \<noteq> -1 then [Close (out P)] else []) @
                (if err P \<noteq> -1 then [Close (err P)] else []) @
                (if pid P \<noteq> -1
                 then [Kill (pid P) SIGKILL, Waitpid (pid P) NULL WNOHANG] else []),
                store p (Struct (P\<lparr>in' := -1, out := -1, err := -1, pid := -1\<rparr>)) h)
       \<and> (in' P = -1 \<and> out P = -1 \<and> err P = -1 \<and> pid P = -1
            \<longrightarrow> process_close p h = Inr ([], h))
       \<and> (\<forall>t h1. process_close p h = Inr (t, h1) \<longrightarrow> process_close p h1 = Inr ([], h1))"
proof -
  let ?Q = "P\<lparr>in' := -1, out := -1, err := -1, pid := -1\<rparr>"
  note first = process_close_eq [OF assms]
  have "load_proc p (store p (Struct ?Q) h) = Inr ?Q"
    using assms by (rule load_proc_store_same)
  then have "process_close p (store p (Struct ?Q) h) = Inr ([], store p (Struct ?Q) h)"
    by (rule process_close_unset) simp_all
  with first process_close_unset [OF assms] show ?thesis by auto
qed

theorem process_close_resets_witness:
  "load_proc 1 [Some (Struct running)] = Inr running
   \<and> process_close 1 [Some (Struct running)] =
       Inr ([Close 4, Close 5, Close 7, Kill 4242 SIGKILL, Waitpid 4242 NULL WNOHANG],
            [Some (Struct unlaunched)])
   \<and> load_proc 1 [Some (Struct unlaunched)] = Inr unlaunched
   \<and> in' unlaunched = -1 \<and> out unlaunched = -1 \<and> err unlaunched = -1 \<and> pid unlaunched = -1
   \<and> process_close 1 [Some (Struct unlaunched)] = Inr ([], [Some (Struct unlaunched)])"
proof -
  have r: "load_proc 1 [Some (Struct running)] = Inr running"
    by (simp add: load_proc_def load_def)
  have u: "load_proc 1 [Some (Struct unlaunched)] = Inr unlaunched"
    by (simp add: load_proc_def load_def)
  from process_close_resets [OF r] process_close_resets [OF u] r u
  show ?thesis by (simp add: running_def unlaunched_def store_def)
qed

text \<open>
  C10. \<^verbatim>\<open>process_close\<close> has no null guard: on the null handle its first field read
  faults. \<^verbatim>\<open>process_free\<close>, in both listings, tests the handle first and returns having
  done nothing.
\<close>

theorem close_null_faults_free_null_returns:
  "process_close NULL h = Inl NullDeref
   \<and> process_free_A NULL h = Inr ([], h)
   \<and> process_free_B NULL h = Inr ([], h)"
  by (simp add: process_close_def process_free_A_def process_free_B_def load_proc_def load_def bindF_Inl)

subsection \<open>process_open\<close>

text \<open>
  C1, evaluated on the code. A handle is created for \<^verbatim>\<open>"/bin/echo"\<close> and launched; the
  three pipes are created as (3, 4), (5, 6) and (7, 8) and \<^verbatim>\<open>fork\<close> returns -1. In both
  listings \<^verbatim>\<open>process_open\<close> returns 0 and the process identifier stays -1, but the
  handle's descriptors are 4, 5 and 7: the failed fork runs the parent branch, which
  stores the pipe ends in the handle.
\<close>

theorem fork_failure_leaves_streams_set:
  "bindF (process_create_A 1 4 5 caller_memory) (\<lambda>(p, h).
     bindF (process_open_A env_fork_fails p h) (\<lambda>(r, t, h1).
     bindF (load_proc p h1) (\<lambda>P. Inr (r, pid P, in' P, out P, err P))))
   = Inr (Returns 0, - 1, 4, 5, 7)
   \<and> bindF (process_create_B 1 4 5 caller_memory) (\<lambda>(p, h).
     bindF (process_open_B env_fork_fails p h) (\<lambda>(r, t, h1).
     bindF (load_proc p h1) (\<lambda>P. Inr (r, pid P, in' P, out P, err P))))
   = Inr (Returns 0, - 1, 4, 5, 7)"
  by code_simp

text \<open>
  C5, as amended. In the child (\<^verbatim>\<open>fork\<close> returned 0) of a launch on a handle that was
  not running, listing A closes the three pipe ends the child does not use, duplicates
  the other three onto standard input, output and error, closes the originals, calls
  \<^verbatim>\<open>setsid\<close>, and then \<^verbatim>\<open>execve\<close> with the handle's path, argument list and environment
  list. Listing B makes the same calls except that it has no \<^verbatim>\<open>setsid\<close>: \<^verbatim>\<open>execve\<close>
  follows the last \<^verbatim>\<open>close\<close> directly. In both, \<^verbatim>\<open>process_open\<close> never returns in the
  child: the image is replaced, or \<^verbatim>\<open>execve\<close> fails and the child ends with \<^verbatim>\<open>_exit(1)\<close>.
\<close>

theorem child_branch_order:
  assumes "load_proc p h = Inr P" and "pid P = -1" and "fork_reply e = 0"
  shows "process_open_A e p h =
           Inr (if execve_succeeds e then ImageReplaced else Exited 1,
                [Pipe (ipipe_reply e), Pipe (opipe_reply e), Pipe (epipe_reply e), Fork 0,
                 Close (snd (pipe_call (ipipe_reply e) (ipipe_uninit e))),
                 Close (fst (pipe_call (opipe_reply e) (opipe_uninit e))),
                 Close (fst (pipe_call (epipe_reply e) (epipe_uninit e))),
                 Dup2 (fst (pipe_call (ipipe_reply e) (ipipe_uninit e))) STDIN_FILENO,
                 Dup2 (snd (pipe_call (opipe_reply e) (opipe_uninit e))) STDOUT_FILENO,
                 Dup2 (snd (pipe_call (epipe_reply e) (epipe_uninit e))) STDERR_FILENO,
                 Close (fst (pipe_call (ipipe_reply e) (ipipe_uninit e))),
                 Close (snd (pipe_call (opipe_reply e) (opipe_uninit e))),
                 Close (snd (pipe_call (epipe_reply e) (epipe_uninit e))),
                 Setsid,
                 Execve (path P) (argv P) (envp P)]
                 @ (if execve_succeeds e then [] else [Exit 1]),
                store p (Struct (P\<lparr>pid := 0\<rparr>)) h)
       \<and> process_open_B e p h =
           Inr (if execve_succeeds e then ImageReplaced else Exited 1,
                [Pipe (ipipe_reply e), Pipe (opipe_reply e), Pipe (epipe_reply e), Fork 0,
                 Close (snd (pipe_call (ipipe_reply e) (ipipe_uninit e))),
                 Close (fst (pipe_call (opipe_reply e) (opipe_uninit e))),
                 Close (fst (pipe_call (epipe_reply e) (epipe_uninit e))),
                 Dup2 (fst (pipe_call (ipipe_reply e) (ipipe_uninit e))) STDIN_FILENO,
                 Dup2 (snd (pipe_call (opipe_reply e) (opipe_uninit e))) STDOUT_FILENO,
                 Dup2 (snd (pipe_call (epipe_reply e) (epipe_uninit e))) STDERR_FILENO,
                 Close (fst (pipe_call (ipipe_reply e) (ipipe_uninit e))),
                 Close (snd (pipe_call (opipe_reply e) (opipe_uninit e))),
                 Close (snd (pipe_call (epipe_reply e) (epipe_uninit e))),
                 Execve (path P) (argv P) (envp P)]
                 @ (if execve_succeeds e then [] else [Exit 1]),
                store p (Struct (P\<lparr>pid := 0\<rparr>)) h)"
  using assms by (simp add: process_open_A_def process_open_B_def bindF_Inr Let_def)

theorem child_branch_order_witness:
  "load_proc 1 [Some (Struct unlaunched)] = Inr unlaunched
   \<and> pid unlaunched = -1 \<and> fork_reply env_child = 0
   \<and> process_open_A env_child 1 [Some (Struct unlaunched)] =
       Inr (Exited 1,
            [Pipe (Some (3, 4)), Pipe (Some (5, 6)), Pipe (Some (7, 8)), Fork 0,
             Close 4, Close 5, Close 7,
             Dup2 3 STDIN_FILENO, Dup2 6 STDOUT_FILENO, Dup2 8 STDERR_FILENO,
             Close 3, Close 6, Close 8,
             Setsid, Execve NULL NULL NULL, Exit 1],
            [Some (Struct (unlaunched\<lparr>pid := 0\<rparr>))])"
proof -
  have l: "load_proc 1 [Some (Struct unlaunched)] = Inr unlaunched"
    by (simp add: load_proc_def load_def)
  have u: "pid unlaunched = -1" by (simp add: unlaunched_def)
  have f: "fork_reply env_child = 0" by (simp add: env_child_def)
  from child_branch_order [OF l u f] l u f show ?thesis
    by (simp add: env_child_def env_parent_def unlaunched_def pipe_call_def store_def)
qed

text \<open>
  C5 as stated fails on listing B: the child of a handle created for \<^verbatim>\<open>"/bin/echo"\<close>
  goes from the last \<^verbatim>\<open>close\<close> to \<^verbatim>\<open>execve\<close> with no \<^verbatim>\<open>setsid\<close> in between.
\<close>

theorem listing_B_child_has_no_setsid:
  "bindF (process_create_B 1 4 5 caller_memory) (\<lambda>(p, h).
     bindF (process_open_B env_child p h) (\<lambda>(r, t, h1). Inr (r, t)))
   = Inr (Exited 1,
          [Pipe (Some (3, 4)), Pipe (Some (5, 6)), Pipe (Some (7, 8)), Fork 0,
           Close 4, Close 5, Close 7,
           Dup2 3 STDIN_FILENO, Dup2 6 STDOUT_FILENO, Dup2 8 STDERR_FILENO,
           Close 3, Close 6, Close 8,
           Execve 7 10 12, Exit 1])"
  by code_simp

subsection \<open>process_free\<close>

text \<open>
  C3, evaluated on the code. A handle is created for \<^verbatim>\<open>"/bin/echo"\<close>, launched as
  process 4242 with descriptors 4, 5 and 7, and freed while running. Listing A releases
  the path, both lists and the handle but makes no system call: the child is not killed
  and the descriptors stay open. Listing B first closes the descriptors, kills and reaps
  the child, and then releases the same memory.
\<close>

theorem free_A_makes_no_system_call:
  "bindF (process_create_A 1 4 5 caller_memory) (\<lambda>(p, h).
     bindF (process_open_A env_parent p h) (\<lambda>(r, t, h1). process_free_A p h1))
   = Inr ([], caller_memory @ replicate 6 None)
   \<and> bindF (process_create_B 1 4 5 caller_memory) (\<lambda>(p, h).
     bindF (process_open_B env_parent p h) (\<lambda>(r, t, h1). process_free_B p h1))
   = Inr ([Close 4, Close 5, Close 7, Kill 4242 SIGKILL, Waitpid 4242 NULL WNOHANG],
          caller_memory @ replicate 8 None)"
  by code_simp

subsection \<open>Clearing a list\<close>

lemma count_from_sentinel:
  "NULL \<notin> set qs \<Longrightarrow> count_from (qs @ NULL # rest) n = Inr (n + length qs)"
  by (induction qs arbitrary: n) auto

lemma is_string_Chars: "is_string q h \<Longrightarrow> \<exists>cs. load_chars q h = Inr cs"
  by (auto simp: is_string_def c_string_def bindF_def split: sum.splits)

lemma entries_split:
  assumes "entries a h = Inr qs" and "a \<noteq> NULL"
  shows "\<exists>rest. load_ptrs a h = Inr (qs @ NULL # rest) \<and> NULL \<notin> set qs"
proof -
  from assms obtain ps where ps: "load_ptrs a h = Inr ps" "NULL \<in> set ps"
    "qs = takeWhile (\<lambda>q. q \<noteq> NULL) ps"
    by (auto simp: entries_def bindF_eq_Inr split: if_splits)
  define ds where "ds = dropWhile (\<lambda>q. q \<noteq> NULL) ps"
  have split: "ps = qs @ ds"
    unfolding ds_def ps(3) by (rule takeWhile_dropWhile_id [symmetric])
  from ps(2) have "ds \<noteq> []" unfolding ds_def by auto
  then obtain x rest where d: "ds = x # rest" by (cases ds) auto
  have "\<not> (hd ds \<noteq> NULL)"
    unfolding ds_def using \<open>ds \<noteq> []\<close> [unfolded ds_def] by (rule hd_dropWhile)
  with d have "x = NULL" by simp
  with split d have "ps = qs @ NULL # rest" by simp
  moreover have "NULL \<notin> set qs" unfolding ps(3) by (auto dest: set_takeWhileD)
  ultimately show ?thesis using ps(1) by auto
qed

lemma free_elements_spec:
  assumes "load_ptrs a h = Inr (replicate i NULL @ qs @ rest)"
    and "distinct qs"
    and "\<forall>q\<in>set qs. \<exists>cs. load_chars q h = Inr cs"
  shows "\<exists>h1. free_elements a i (length qs) h = Inr h1
           \<and> load_ptrs a h1 = Inr (replicate (i + length qs) NULL @ rest)
           \<and> length h1 = length h
           \<and> (\<forall>q\<in>set qs. h1 ! (q - 1) = None)
           \<and> (\<forall>b. 0 < b \<longrightarrow> b \<noteq> a \<longrightarrow> b \<notin> set qs \<longrightarrow> h1 ! (b - 1) = h ! (b - 1))"
  using assms
proof (induction qs arbitrary: i h)
  case Nil
  then show ?case by simp
next
  case (Cons q qs)
  from Cons.prems(3) obtain cs where cs: "load_chars q h = Inr cs" by auto
  then have q: "0 < q" "q \<le> length h" "h ! (q - 1) = Some (Chars cs)"
    by (simp_all add: load_chars_Inr)
  from Cons.prems(1) have a: "0 < a" "a \<le> length h"
    "h ! (a - 1) = Some (Ptrs (replicate i NULL @ (q # qs) @ rest))"
    by (simp_all add: load_ptrs_Inr)
  from a q have aq: "a - 1 \<noteq> q - 1" by auto
  have rd: "read_slot a i h = Inr q"
    using Cons.prems(1) by (simp add: read_slot_def bindF_Inr nth_append)
  have fr: "free q h = Inr (h[q - 1 := None])"
    using q by (simp add: free_def load_def)
  let ?h1 = "h[q - 1 := None]"
  have l1: "load_ptrs a ?h1 = Inr (replicate i NULL @ (q # qs) @ rest)"
    using a aq by (simp add: load_ptrs_Inr)
  let ?h2 = "store a (Ptrs (replicate (Suc i) NULL @ qs @ rest)) ?h1"
  have upd: "(replicate i NULL @ (q # qs) @ rest)[i := NULL] = replicate (Suc i) NULL @ qs @ rest"
    by (simp add: list_update_append replicate_append_same)
  have "write_slot a i NULL ?h1 =
          Inr (store a (Ptrs ((replicate i NULL @ (q # qs) @ rest)[i := NULL])) ?h1)"
    using l1 by (simp add: write_slot_def bindF_Inr)
  then have wr: "write_slot a i NULL ?h1 = Inr ?h2"
    by (simp only: upd)
  have l2: "load_ptrs a ?h2 = Inr (replicate (Suc i) NULL @ qs @ rest)"
    using a by (simp add: load_ptrs_Inr store_def)
  have d2: "distinct qs" using Cons.prems(2) by simp
  have s2: "\<forall>q'\<in>set qs. \<exists>cs. load_chars q' ?h2 = Inr cs"
  proof
    fix q' assume q': "q' \<in> set qs"
    with Cons.prems(3) obtain cs' where c': "load_chars q' h = Inr cs'" by auto
    then have "0 < q'" "q' \<le> length h" "h ! (q' - 1) = Some (Chars cs')"
      by (simp_all add: load_chars_Inr)
    moreover from q' Cons.prems(2) have "q' \<noteq> q" by auto
    ultimately have "load_chars q' ?h2 = Inr cs'"
      using a q by (auto simp: load_chars_Inr store_def nth_list_update)
    then show "\<exists>cs. load_chars q' ?h2 = Inr cs" ..
  qed
  from Cons.IH [OF l2 d2 s2] obtain h3 where h3:
    "free_elements a (Suc i) (length qs) ?h2 = Inr h3"
    "load_ptrs a h3 = Inr (replicate (Suc i + length qs) NULL @ rest)"
    "length h3 = length ?h2"
    "\<forall>q\<in>set qs. h3 ! (q - 1) = None"
    "\<forall>b. 0 < b \<longrightarrow> b \<noteq> a \<longrightarrow> b \<notin> set qs \<longrightarrow> h3 ! (b - 1) = ?h2 ! (b - 1)"
    by blast
  have run: "free_elements a i (length (q # qs)) h = Inr h3"
    using rd fr wr h3(1) by (simp add: bindF_Inr)
  have "q \<notin> set qs" "q \<noteq> a" using Cons.prems(2) aq by auto
  then have "h3 ! (q - 1) = ?h2 ! (q - 1)" using h3(5) q(1) by simp
  also have "\<dots> = None" using q aq by (simp add: store_def)
  finally have qn: "h3 ! (q - 1) = None" .
  have frame: "h3 ! (b - 1) = h ! (b - 1)" if "0 < b" "b \<noteq> a" "b \<notin> set (q # qs)" for b
  proof -
    from that have "h3 ! (b - 1) = ?h2 ! (b - 1)" using h3(5) by simp
    also have "\<dots> = h ! (b - 1)"
      using that a q by (auto simp: store_def nth_list_update)
    finally show ?thesis .
  qed
  show ?case using run h3(2,3,4) qn frame by (auto simp: store_def)
qed

lemma array_clear_null: "process_array_clear (Some NULL) h = Inr (Some NULL, h)"
  by (simp add: process_array_clear_def process_array_count_def bindF_Inr free_def)

lemma array_clear_spec:
  assumes "owned_list a h"
  shows "\<exists>h1. process_array_clear (Some a) h = Inr (Some NULL, h1)
           \<and> (\<forall>b Q. load_proc b h = Inr Q \<longrightarrow> load_proc b h1 = Inr Q)"
proof (cases "a = NULL")
  case True
  then show ?thesis by (simp add: array_clear_null)
next
  case False
  with assms obtain qs where qs: "entries a h = Inr qs" "distinct qs"
    "list_all (\<lambda>q. is_string q h) qs"
    by (auto simp: owned_list_def split: sum.splits)
  from entries_split [OF qs(1) False] obtain rest where
    l: "load_ptrs a h = Inr (qs @ NULL # rest)" and nn: "NULL \<notin> set qs" by blast
  have cnt: "process_array_count a h = Inr (length qs)"
    using False l nn by (simp add: process_array_count_def bindF_Inr count_from_sentinel)
  have strs: "\<forall>q\<in>set qs. \<exists>cs. load_chars q h = Inr cs"
    using qs(3) by (auto simp: list_all_iff dest: is_string_Chars)
  from l have l0: "load_ptrs a h = Inr (replicate 0 NULL @ qs @ (NULL # rest))" by simp
  from free_elements_spec [OF l0 qs(2) strs] obtain h1 where h1:
    "free_elements a 0 (length qs) h = Inr h1"
    "load_ptrs a h1 = Inr (replicate (0 + length qs) NULL @ (NULL # rest))"
    "length h1 = length h"
    "\<forall>b. 0 < b \<longrightarrow> b \<noteq> a \<longrightarrow> b \<notin> set qs \<longrightarrow> h1 ! (b - 1) = h ! (b - 1)"
    by blast
  from h1(2) have fr: "free a h1 = Inr (h1[a - 1 := None])"
    by (auto simp: free_def load_ptrs_def load_def split: sum.splits if_splits)
  have run: "process_array_clear (Some a) h = Inr (Some NULL, h1[a - 1 := None])"
    using cnt h1(1) fr by (simp add: process_array_clear_def bindF_Inr)
  have keep: "load_proc b (h1[a - 1 := None]) = Inr Q" if b: "load_proc b h = Inr Q" for b Q
  proof -
    from b have b': "0 < b" "b \<le> length h" "h ! (b - 1) = Some (Struct Q)"
      by (simp_all add: load_proc_Inr)
    from l have a': "0 < a" "a \<le> length h" "h ! (a - 1) = Some (Ptrs (qs @ NULL # rest))"
      by (simp_all add: load_ptrs_Inr)
    from b' a' have ba: "b \<noteq> a" by auto
    have bq: "b \<notin> set qs"
    proof
      assume "b \<in> set qs"
      with strs obtain cs where "load_chars b h = Inr cs" by auto
      with b' show False by (simp add: load_chars_Inr)
    qed
    from h1(4) b'(1) ba bq have "h1 ! (b - 1) = h ! (b - 1)" by simp
    with b' a' ba h1(3) show ?thesis by (auto simp: load_proc_Inr nth_list_update)
  qed
  from run keep show ?thesis by blast
qed

lemma update_proc_Inr:
  "load_proc p h = Inr P \<Longrightarrow> update_proc p f h = Inr (store p (Struct (f P)) h)"
  by (simp add: update_proc_def bindF_Inr)

text \<open>
  C9. For every list that is absent or owns distinct strings, \<^verbatim>\<open>_process_array_clear\<close>
  returns with the list pointer reset to null, so that \<^verbatim>\<open>_process_array_count\<close> of it
  is 0, and clearing the now absent list again changes nothing; with a null reference it
  does nothing. \<^verbatim>\<open>process_clear_argv\<close> and \<^verbatim>\<open>process_clear_envp\<close> (listing A) leave the
  handle with an absent list, every other field as it was, and a second call returns
  the same memory.
\<close>

theorem clear_resets_to_absent:
  assumes "owned_list a h" and "load_proc p h = Inr P"
    and "owned_list (argv P) h" and "owned_list (envp P) h"
  shows "(\<exists>h1. process_array_clear (Some a) h = Inr (Some NULL, h1)
            \<and> process_array_count NULL h1 = Inr 0
            \<and> process_array_clear (Some NULL) h1 = Inr (Some NULL, h1))
       \<and> process_array_clear None h = Inr (None, h)
       \<and> (\<exists>h1. process_clear_argv_A p h = Inr h1
            \<and> load_proc p h1 = Inr (P\<lparr>argv := NULL\<rparr>)
            \<and> bindF (load_proc p h1) (\<lambda>P1. process_array_count (argv P1) h1) = Inr 0
            \<and> process_clear_argv_A p h1 = Inr h1)
       \<and> (\<exists>h1. process_clear_envp_A p h = Inr h1
            \<and> load_proc p h1 = Inr (P\<lparr>envp := NULL\<rparr>)
            \<and> bindF (load_proc p h1) (\<lambda>P1. process_array_count (envp P1) h1) = Inr 0
            \<and> process_clear_envp_A p h1 = Inr h1)"
proof -
  have one: "\<exists>h1. process_array_clear (Some a) h = Inr (Some NULL, h1)
            \<and> process_array_count NULL h1 = Inr 0
            \<and> process_array_clear (Some NULL) h1 = Inr (Some NULL, h1)"
    using array_clear_spec [OF assms(1)]
    by (auto simp: array_clear_null process_array_count_def)
  have two: "process_array_clear None h = Inr (None, h)"
    by (simp add: process_array_clear_def)
  have three: "\<exists>h1. process_clear_argv_A p h = Inr h1
            \<and> load_proc p h1 = Inr (P\<lparr>argv := NULL\<rparr>)
            \<and> bindF (load_proc p h1) (\<lambda>P1. process_array_count (argv P1) h1) = Inr 0
            \<and> process_clear_argv_A p h1 = Inr h1"
  proof -
    from array_clear_spec [OF assms(3)] obtain h1 where h1:
      "process_array_clear (Some (argv P)) h = Inr (Some NULL, h1)"
      "\<forall>b Q. load_proc b h = Inr Q \<longrightarrow> load_proc b h1 = Inr Q" by blast
    from h1(2) assms(2) have p1: "load_proc p h1 = Inr P" by blast
    let ?h2 = "store p (Struct (P\<lparr>argv := NULL\<rparr>)) h1"
    have p2: "load_proc p ?h2 = Inr (P\<lparr>argv := NULL\<rparr>)"
      using p1 by (rule load_proc_store_same)
    have run: "process_clear_argv_A p h = Inr ?h2"
      using assms(2) h1(1) p1 p2
      by (simp add: process_clear_argv_A_def bindF_Inr update_proc_Inr store_store)
    have again: "process_clear_argv_A p ?h2 = Inr ?h2"
      using p2 by (simp add: process_clear_argv_A_def bindF_Inr update_proc_Inr
          array_clear_null store_store)
    have cnt: "bindF (load_proc p ?h2) (\<lambda>P1. process_array_count (argv P1) ?h2) = Inr 0"
      using p2 by (simp add: bindF_Inr process_array_count_def)
    from run p2 cnt again show ?thesis by blast
  qed
  have four: "\<exists>h1. process_clear_envp_A p h = Inr h1
            \<and> load_proc p h1 = Inr (P\<lparr>envp := NULL\<rparr>)
            \<and> bindF (load_proc p h1) (\<lambda>P1. process_array_count (envp P1) h1) = Inr 0
            \<and> process_clear_envp_A p h1 = Inr h1"
  proof -
    from array_clear_spec [OF assms(4)] obtain h1 where h1:
      "process_array_clear (Some (envp P)) h = Inr (Some NULL, h1)"
      "\<forall>b Q. load_proc b h = Inr Q \<longrightarrow> load_proc b h1 = Inr Q" by blast
    from h1(2) assms(2) have p1: "load_proc p h1 = Inr P" by blast
    let ?h2 = "store p (Struct (P\<lparr>envp := NULL\<rparr>)) h1"
    have p2: "load_proc p ?h2 = Inr (P\<lparr>envp := NULL\<rparr>)"
      using p1 by (rule load_proc_store_same)
    have run: "process_clear_envp_A p h = Inr ?h2"
      using assms(2) h1(1) p1 p2
      by (simp add: process_clear_envp_A_def bindF_Inr update_proc_Inr store_store)
    have again: "process_clear_envp_A p ?h2 = Inr ?h2"
      using p2 by (simp add: process_clear_envp_A_def bindF_Inr update_proc_Inr
          array_clear_null store_store)
    have cnt: "bindF (load_proc p ?h2) (\<lambda>P1. process_array_count (envp P1) ?h2) = Inr 0"
      using p2 by (simp add: bindF_Inr process_array_count_def)
    from run p2 cnt again show ?thesis by blast
  qed
  from one two three four show ?thesis by blast
qed

theorem clear_resets_to_absent_witness:
  "owned_list 8 created_memory
   \<and> load_proc 6 created_memory = Inr created_handle
   \<and> owned_list (argv created_handle) created_memory
   \<and> owned_list (envp created_handle) created_memory
   \<and> (\<exists>h1. process_clear_argv_A 6 created_memory = Inr h1
          \<and> load_proc 6 h1 = Inr (created_handle\<lparr>argv := NULL\<rparr>)
          \<and> process_clear_argv_A 6 h1 = Inr h1)
   \<and> process_array_clear (Some 8) created_memory =
       Inr (Some NULL,
            caller_memory @
            [Some (Struct created_handle),
             Some (Chars (''/bin/echo'' @ [CHR 0x00])),
             None, None,
             Some (Ptrs [11, NULL]),
             Some (Chars (''A=1'' @ [CHR 0x00]))])"
proof -
  have a: "owned_list 8 created_memory" by code_simp
  have b: "load_proc 6 created_memory = Inr created_handle" by code_simp
  have c: "owned_list (argv created_handle) created_memory" by code_simp
  have d: "owned_list (envp created_handle) created_memory" by code_simp
  have e: "process_array_clear (Some 8) created_memory =
       Inr (Some NULL,
            caller_memory @
            [Some (Struct created_handle),
             Some (Chars (''/bin/echo'' @ [CHR 0x00])),
             None, None,
             Some (Ptrs [11, NULL]),
             Some (Chars (''A=1'' @ [CHR 0x00]))])" by code_simp
  from clear_resets_to_absent [OF a b c d] a b c d e show ?thesis by blast
qed

subsection \<open>Appending to a list\<close>

lemma strlen_from_terminated:
  "CHR 0x00 \<in> set cs \<Longrightarrow> strlen_from cs n = Inr (n + length (content cs))"
  by (induction cs arbitrary: n) auto

lemma strlen_spec:
  "load_chars s h = Inr cs \<Longrightarrow> CHR 0x00 \<in> set cs \<Longrightarrow> strlen s h = Inr (length (content cs))"
  by (simp add: strlen_def bindF_Inr strlen_from_terminated)

lemma load_chars_append:
  "load_chars s h = Inr cs \<Longrightarrow> load_chars s (h @ h') = Inr cs"
  by (auto simp: load_chars_Inr nth_append)

lemma take_content: "take (length (content cs)) cs = content cs"
  by (metis takeWhile_eq_take)

lemma drop_replicate_Suc: "drop n (x # replicate n x) = [x]"
  by (induction n) simp_all

lemma memcpy_spec:
  "load_chars s h = Inr cs \<Longrightarrow> load_chars d h = Inr ds \<Longrightarrow> n \<le> length cs \<Longrightarrow>
   n \<le> length ds \<Longrightarrow> memcpy d s n h = Inr (store d (Chars (take n cs @ drop n ds)) h)"
  by (simp add: memcpy_def bindF_Inr)

lemma string_copy_spec:
  assumes "load_chars src h = Inr cs" and "CHR 0x00 \<in> set cs"
  shows "process_string_copy src h =
           Inr (Suc (length h), h @ [Some (Chars (content cs @ [CHR 0x00]))])"
proof -
  let ?n = "length (content cs)"
  let ?h1 = "h @ [Some (Chars (replicate (?n + 1) (CHR 0x00)))]"
  have s0: "strlen src h = Inr ?n" using assms by (rule strlen_spec)
  have c: "calloc (?n + 1) h = (Suc (length h), ?h1)"
    by (simp add: calloc_def alloc_def)
  have s1: "strlen src ?h1 = Inr ?n"
    using load_chars_append [OF assms(1)] assms(2) by (rule strlen_spec)
  have le: "?n \<le> length cs" by (simp add: length_takeWhile_le)
  have ls: "load_chars src ?h1 = Inr cs"
    using assms(1) by (rule load_chars_append)
  have ld: "load_chars (Suc (length h)) ?h1 = Inr (replicate (?n + 1) (CHR 0x00))"
    by (simp add: load_chars_Inr)
  have "memcpy (Suc (length h)) src ?n ?h1 =
          Inr (store (Suc (length h))
                 (Chars (take ?n cs @ drop ?n (replicate (?n + 1) (CHR 0x00)))) ?h1)"
    using ls ld le by (rule memcpy_spec) simp
  then have m: "memcpy (Suc (length h)) src ?n ?h1 =
             Inr (h @ [Some (Chars (content cs @ [CHR 0x00]))])"
    by (simp add: store_def take_content drop_replicate_Suc)
  show ?thesis
    unfolding process_string_copy_def
    by (simp only: s0 bindF_Inr c Let_def prod.case s1 m)
qed

lemma realloc_null: "realloc NULL n h = Inr (Suc (length h), h @ [Some (Ptrs (replicate n NULL))])"
  by (simp add: realloc_def alloc_def)

lemma realloc_spec:
  assumes "load_ptrs a h = Inr ps"
  shows "realloc a n h =
     Inr (Suc (length h),
          h[a - 1 := None] @ [Some (Ptrs (take n ps @ replicate (n - length ps) NULL))])"
proof -
  from assms have "0 < a" "a - 1 < length h" by (auto simp: load_ptrs_Inr)
  with assms show ?thesis
    by (simp add: realloc_def alloc_def bindF_Inr list_update_append)
qed

lemma write_slot_spec:
  "load_ptrs a h = Inr ps \<Longrightarrow> i < length ps \<Longrightarrow>
   write_slot a i v h = Inr (store a (Ptrs (ps[i := v])) h)"
  by (simp add: write_slot_def bindF_Inr)

lemma lst_count: "lst a h qs \<Longrightarrow> process_array_count a h = Inr (length qs)"
  using count_from_sentinel [where qs = qs and rest = "[]" and n = 0]
  by (auto simp: lst_def process_array_count_def bindF_Inr load_null)

lemma push_spec:
  assumes "lst a h qs" and "load_chars item h = Inr cs" and "CHR 0x00 \<in> set cs"
  shows "process_array_push a item h =
           Inr (Suc (length h),
                (if a = NULL then h else h[a - 1 := None]) @
                [Some (Ptrs (qs @ [length h + 2, NULL])),
                 Some (Chars (content cs @ [CHR 0x00]))])"
proof -
  let ?n = "length qs"
  let ?h0 = "if a = NULL then h else h[a - 1 := None]"
  let ?a1 = "Suc (length h)"
  let ?s = "length h + 2"
  let ?h1 = "?h0 @ [Some (Ptrs (qs @ [NULL, NULL]))]"
  let ?str = "Some (Chars (content cs @ [CHR 0x00]))"
  let ?h2 = "?h1 @ [?str]"
  let ?h3 = "?h0 @ [Some (Ptrs (qs @ [?s, NULL])), ?str]"
  have len0: "length ?h0 = length h" by simp
  have cnt: "process_array_count a h = Inr ?n" using assms(1) by (rule lst_count)
  have re: "realloc a (?n + 2) h = Inr (?a1, ?h1)"
  proof (cases "a = NULL")
    case True
    with assms(1) have "qs = []" by (auto simp: lst_def load_ptrs_Inr)
    with True show ?thesis by (simp add: realloc_null numeral_2_eq_2)
  next
    case False
    with assms(1) have l: "load_ptrs a h = Inr (qs @ [NULL])" by (auto simp: lst_def)
    from realloc_spec [OF l, of "?n + 2"] False show ?thesis by simp
  qed
  have item0: "load_chars item ?h0 = Inr cs"
  proof (cases "a = NULL")
    case True
    with assms(2) show ?thesis by simp
  next
    case False
    with assms(1) have "load_ptrs a h = Inr (qs @ [NULL])" by (auto simp: lst_def)
    with assms(2) show ?thesis
      by (auto simp: load_chars_Inr load_ptrs_Inr nth_list_update)
  qed
  then have item1: "load_chars item ?h1 = Inr cs" by (rule load_chars_append)
  have "process_string_copy item ?h1 = Inr (Suc (length ?h1), ?h1 @ [?str])"
    using item1 assms(3) by (rule string_copy_spec)
  then have sc: "process_string_copy item ?h1 = Inr (?s, ?h2)" by simp
  have l2: "load_ptrs ?a1 ?h2 = Inr (qs @ [NULL, NULL])"
    by (simp add: load_ptrs_Inr nth_append)
  have "write_slot ?a1 ?n ?s ?h2 = Inr (store ?a1 (Ptrs ((qs @ [NULL, NULL])[?n := ?s])) ?h2)"
    using l2 by (rule write_slot_spec) simp
  then have w1: "write_slot ?a1 ?n ?s ?h2 = Inr ?h3"
    by (simp add: store_def list_update_append)
  have l3: "load_ptrs ?a1 ?h3 = Inr (qs @ [?s, NULL])"
    by (simp add: load_ptrs_Inr nth_append)
  have "write_slot ?a1 (?n + 1) NULL ?h3 =
          Inr (store ?a1 (Ptrs ((qs @ [?s, NULL])[?n + 1 := NULL])) ?h3)"
    using l3 by (rule write_slot_spec) simp
  then have w2: "write_slot ?a1 (?n + 1) NULL ?h3 = Inr ?h3"
    by (simp add: store_def list_update_append)
  show ?thesis
    unfolding process_array_push_def
    by (simp only: cnt bindF_Inr re prod.case sc w1 w2)
qed

lemma c_string_cell:
  assumes "0 < b" and "b \<le> length h" and "length h \<le> length h'"
    and "h' ! (b - 1) = h ! (b - 1)"
  shows "c_string b h' = c_string b h"
proof -
  from assms have "load b h' = load b h" by (simp add: load_def)
  then show ?thesis by (simp add: c_string_def load_chars_def)
qed

lemma is_string_iff:
  "is_string q h \<longleftrightarrow> (\<exists>cs. load_chars q h = Inr cs \<and> CHR 0x00 \<in> set cs)"
  by (cases "load_chars q h") (auto simp: is_string_def c_string_def bindF_def)

lemma c_string_spec:
  "load_chars q h = Inr cs \<Longrightarrow> CHR 0x00 \<in> set cs \<Longrightarrow> c_string q h = Inr (content cs)"
  by (simp add: c_string_def bindF_Inr)

lemma content_copy: "content (content cs @ [CHR 0x00]) = content cs"
proof -
  have "\<And>x. x \<in> set (content cs) \<Longrightarrow> x \<noteq> CHR 0x00" by (auto dest: set_takeWhileD)
  then show ?thesis by (simp add: takeWhile_append2)
qed

lemma push_all_spec:
  assumes "lst a h qs" and "\<forall>item\<in>set items. is_string item h"
  shows "\<exists>a' h' new. push_all a items h = Inr (a', h')
           \<and> lst a' h' (qs @ new)
           \<and> length new = length items
           \<and> (\<forall>i<length items. length h < new ! i \<and> new ! i \<le> length h'
                  \<and> c_string (new ! i) h' = c_string (items ! i) h)
           \<and> distinct new
           \<and> length h \<le> length h'
           \<and> (items \<noteq> [] \<longrightarrow> length h < a')
           \<and> (items = [] \<longrightarrow> a' = a \<and> h' = h)
           \<and> (\<forall>b. 0 < b \<longrightarrow> b \<le> length h \<longrightarrow> b \<noteq> a \<longrightarrow> h' ! (b - 1) = h ! (b - 1))"
  using assms
proof (induction items arbitrary: a h qs)
  case Nil
  then show ?case by simp
next
  case (Cons item items)
  from Cons.prems(2) obtain cs where cs: "load_chars item h = Inr cs" "CHR 0x00 \<in> set cs"
    by (auto simp: is_string_iff)
  let ?a1 = "Suc (length h)"
  let ?s = "length h + 2"
  define h0 where "h0 = (if a = NULL then h else h[a - 1 := None])"
  define h1 where
    "h1 = h0 @ [Some (Ptrs (qs @ [?s, NULL])), Some (Chars (content cs @ [CHR 0x00]))]"
  have len0: "length h0 = length h" by (simp add: h0_def)
  have push: "process_array_push a item h = Inr (?a1, h1)"
    unfolding h1_def h0_def using Cons.prems(1) cs by (rule push_spec)
  have len1: "length h1 = length h + 2" by (simp add: h1_def len0)
  have frame1: "h1 ! (b - 1) = h ! (b - 1)" if "0 < b" "b \<le> length h" "b \<noteq> a" for b
    using that by (auto simp: h1_def h0_def nth_append nth_list_update)
  have cell_a1: "h1 ! length h = Some (Ptrs (qs @ [?s, NULL]))"
    by (simp add: h1_def nth_append len0)
  have cell_s: "h1 ! Suc (length h) = Some (Chars (content cs @ [CHR 0x00]))"
    by (simp add: h1_def nth_append len0)
  have nn: "NULL \<notin> set qs" using Cons.prems(1) by (auto simp: lst_def)
  have lst1: "lst ?a1 h1 (qs @ [?s])"
    using nn cell_a1 len1 by (simp add: lst_def load_ptrs_Inr)
  have sl: "load_chars ?s h1 = Inr (content cs @ [CHR 0x00])"
    using cell_s len1 by (simp add: load_chars_Inr)
  have cs1: "c_string ?s h1 = c_string item h"
    using c_string_spec [OF sl] c_string_spec [OF cs] by (simp add: content_copy)
  have item_le: "0 < b \<and> b \<le> length h \<and> b \<noteq> a" if "is_string b h" for b
  proof -
    from that obtain ds where ds: "load_chars b h = Inr ds" by (auto simp: is_string_iff)
    then have b: "0 < b" "b \<le> length h" "h ! (b - 1) = Some (Chars ds)"
      by (simp_all add: load_chars_Inr)
    have "b \<noteq> a"
    proof
      assume "b = a"
      with Cons.prems(1) b(1) have "load_ptrs b h = Inr (qs @ [NULL])" by (auto simp: lst_def)
      with b show False by (simp add: load_ptrs_Inr)
    qed
    with b show ?thesis by simp
  qed
  have keep: "c_string b h1 = c_string b h" if "is_string b h" for b
    using item_le [OF that] frame1 [of b] len1 by (intro c_string_cell) simp_all
  have strs1: "\<forall>x\<in>set items. is_string x h1"
  proof
    fix x assume "x \<in> set items"
    with Cons.prems(2) have "is_string x h" by simp
    from keep [OF this] this show "is_string x h1" by (simp add: is_string_def)
  qed
  from Cons.IH [OF lst1 strs1] obtain a' h' new where ih:
    "push_all ?a1 items h1 = Inr (a', h')"
    "lst a' h' ((qs @ [?s]) @ new)"
    "length new = length items"
    "\<forall>i<length items. length h1 < new ! i \<and> new ! i \<le> length h'
         \<and> c_string (new ! i) h' = c_string (items ! i) h1"
    "distinct new"
    "length h1 \<le> length h'"
    "items \<noteq> [] \<longrightarrow> length h1 < a'"
    "items = [] \<longrightarrow> a' = ?a1 \<and> h' = h1"
    "\<forall>b. 0 < b \<longrightarrow> b \<le> length h1 \<longrightarrow> b \<noteq> ?a1 \<longrightarrow> h' ! (b - 1) = h1 ! (b - 1)"
    by blast
  have run: "push_all a (item # items) h = Inr (a', h')"
    using push ih(1) by (simp add: bindF_Inr)
  have l: "lst a' h' (qs @ (?s # new))" using ih(2) by simp
  have s_cell: "h' ! (?s - 1) = h1 ! (?s - 1)"
    using ih(9) [rule_format, of ?s] len1 by simp
  have s_str: "c_string ?s h' = c_string item h"
  proof -
    have "c_string ?s h' = c_string ?s h1"
      using s_cell ih(6) len1 by (intro c_string_cell) simp_all
    with cs1 show ?thesis by simp
  qed
  have each: "length h < (?s # new) ! i \<and> (?s # new) ! i \<le> length h'
              \<and> c_string ((?s # new) ! i) h' = c_string ((item # items) ! i) h"
    if "i < length (item # items)" for i
  proof (cases i)
    case 0
    with s_str ih(6) len1 show ?thesis by simp
  next
    case (Suc j)
    with that have j: "j < length items" by simp
    with ih(4) have "length h1 < new ! j" "new ! j \<le> length h'"
      "c_string (new ! j) h' = c_string (items ! j) h1" by auto
    moreover from j Cons.prems(2) have "is_string (items ! j) h" by simp
    then have "c_string (items ! j) h1 = c_string (items ! j) h" by (rule keep)
    ultimately show ?thesis using Suc len1 by simp
  qed
  have "?s \<notin> set new"
  proof
    assume "?s \<in> set new"
    then obtain j where "j < length new" "new ! j = ?s" by (auto simp: in_set_conv_nth)
    with ih(3,4) len1 show False by auto
  qed
  with ih(5) have dist: "distinct (?s # new)" by simp
  have lenh: "length h \<le> length h'" using ih(6) len1 by simp
  have a'_new: "length h < a'" using ih(7,8) len1 by (cases "items = []") auto
  have frame: "h' ! (b - 1) = h ! (b - 1)" if "0 < b" "b \<le> length h" "b \<noteq> a" for b
  proof -
    from that have "h' ! (b - 1) = h1 ! (b - 1)"
      using ih(9) [rule_format, of b] len1 by simp
    with frame1 [OF that] show ?thesis by simp
  qed
  have "length (?s # new) = length (item # items)" using ih(3) by simp
  with run l each dist lenh a'_new frame show ?case
    by (intro exI [of _ a'] exI [of _ h'] exI [of _ "?s # new"]) (simp del: nth_Cons_Suc)
qed

lemma takeWhile_sentinel:
  "NULL \<notin> set qs \<Longrightarrow> takeWhile (\<lambda>q. q \<noteq> NULL) (qs @ NULL # rest) = qs"
  by (induction qs) auto

lemma lst_entries:
  assumes "lst a h qs"
  shows "entries a h = Inr qs"
proof (cases "a = NULL")
  case True
  with assms show ?thesis by (auto simp: lst_def entries_def load_null)
next
  case False
  with assms have l: "load_ptrs a h = Inr (qs @ [NULL])" and nn: "NULL \<notin> set qs"
    by (auto simp: lst_def)
  have "takeWhile (\<lambda>q. q \<noteq> NULL) (qs @ [NULL]) = qs"
    using nn by (rule takeWhile_sentinel)
  then show ?thesis
    unfolding entries_def using False by (simp add: l bindF_Inr)
qed

lemma lst_shape: "lst a h qs \<Longrightarrow> a \<noteq> NULL \<Longrightarrow> load_ptrs a h = Inr (qs @ [NULL])"
  by (auto simp: lst_def)

text \<open>
  C8. Starting from the absent list, after appending \<open>N\<close> valid strings with
  \<^verbatim>\<open>_process_array_push\<close> the count is \<open>N\<close>; entry \<open>i\<close> of the list is a block that did
  not exist before the calls, so it is not the caller's string, and it reads as the same
  characters as the caller's \<open>i\<close>-th string; the entries are pairwise distinct blocks;
  and the backing array holds the \<open>N\<close> entries and the sentinel and nothing else: after
  the \<open>(k+1)\<close>-th append it has exactly \<open>k + 2\<close> slots, the old \<open>k\<close> plus two.
\<close>

theorem appends_count_and_copy:
  assumes "\<forall>item\<in>set items. is_string item h"
  shows "\<exists>a' h' qs. push_all NULL items h = Inr (a', h')
           \<and> process_array_count a' h' = Inr (length items)
           \<and> entries a' h' = Inr qs
           \<and> length qs = length items
           \<and> (\<forall>i<length items.
                  c_string (qs ! i) h' = c_string (items ! i) h
                  \<and> qs ! i \<noteq> items ! i
                  \<and> length h < qs ! i)
           \<and> distinct qs
           \<and> (if items = [] then a' = NULL else load_ptrs a' h' = Inr (qs @ [NULL]))
           \<and> (\<forall>k<length items. \<exists>a1 h1.
                  push_all NULL (take (Suc k) items) h = Inr (a1, h1) \<and> slots a1 h1 = k + 2)"
proof -
  have start: "lst NULL h []" by (simp add: lst_def)
  from push_all_spec [OF start assms] obtain a' h' new where r:
    "push_all NULL items h = Inr (a', h')"
    "lst a' h' ([] @ new)"
    "length new = length items"
    "\<forall>i<length items. length h < new ! i \<and> new ! i \<le> length h'
         \<and> c_string (new ! i) h' = c_string (items ! i) h"
    "distinct new"
    "items \<noteq> [] \<longrightarrow> length h < a'"
    "items = [] \<longrightarrow> a' = NULL \<and> h' = h"
    by blast
  from r(2) have l: "lst a' h' new" by simp
  have cnt: "process_array_count a' h' = Inr (length items)"
    using lst_count [OF l] r(3) by simp
  have ent: "entries a' h' = Inr new" using l by (rule lst_entries)
  have each: "c_string (new ! i) h' = c_string (items ! i) h \<and> new ! i \<noteq> items ! i
              \<and> length h < new ! i" if "i < length items" for i
  proof -
    from that r(4) have n: "length h < new ! i" "c_string (new ! i) h' = c_string (items ! i) h"
      by auto
    from that assms have "is_string (items ! i) h" by simp
    then have "items ! i \<le> length h" by (auto simp: is_string_iff load_chars_Inr)
    with n show ?thesis by simp
  qed
  have shape: "if items = [] then a' = NULL else load_ptrs a' h' = Inr (new @ [NULL])"
  proof (cases "items = []")
    case True
    with r(7) show ?thesis by simp
  next
    case False
    with r(6) have "a' \<noteq> NULL" by auto
    with l False show ?thesis by (simp add: lst_shape)
  qed
  have sizes: "\<exists>a1 h1. push_all NULL (take (Suc k) items) h = Inr (a1, h1) \<and> slots a1 h1 = k + 2"
    if k: "k < length items" for k
  proof -
    have pre: "\<forall>item\<in>set (take (Suc k) items). is_string item h"
      using assms by (auto dest: in_set_takeD)
    from push_all_spec [OF start pre] obtain a1 h1 new1 where p:
      "push_all NULL (take (Suc k) items) h = Inr (a1, h1)"
      "lst a1 h1 ([] @ new1)"
      "length new1 = length (take (Suc k) items)"
      "take (Suc k) items \<noteq> [] \<longrightarrow> length h < a1"
      by blast
    from k have ne: "take (Suc k) items \<noteq> []" by (cases items) auto
    with p(4) have "a1 \<noteq> NULL" by auto
    with p(2) have "load_ptrs a1 h1 = Inr (new1 @ [NULL])" by (simp add: lst_shape)
    moreover from p(3) k have "length new1 = Suc k" by simp
    ultimately have "slots a1 h1 = k + 2" by (simp add: slots_def)
    with p(1) show ?thesis by blast
  qed
  from r(1) cnt ent r(3) each r(5) shape sizes show ?thesis
    by (intro exI [of _ a'] exI [of _ h'] exI [of _ new]) simp
qed

theorem appends_count_and_copy_witness:
  "is_string 2 caller_memory \<and> is_string 3 caller_memory
   \<and> push_all NULL [2, 3, 2] caller_memory =
       Inr (10, caller_memory @
                [None, Some (Chars (''hello'' @ [CHR 0x00])),
                 None, Some (Chars (''A=1'' @ [CHR 0x00])),
                 Some (Ptrs [7, 9, 11, NULL]), Some (Chars (''hello'' @ [CHR 0x00]))])
   \<and> (\<exists>a' h' qs. push_all NULL [2, 3, 2] caller_memory = Inr (a', h')
          \<and> process_array_count a' h' = Inr 3
          \<and> entries a' h' = Inr qs
          \<and> (\<forall>i<3. c_string (qs ! i) h' = c_string ([2, 3, 2] ! i) caller_memory
                    \<and> qs ! i \<noteq> [2, 3, 2] ! i))"
proof -
  have s2: "is_string 2 caller_memory" by code_simp
  have s3: "is_string 3 caller_memory" by code_simp
  from s2 s3 have pre: "\<forall>item\<in>set [2, 3, 2]. is_string item caller_memory" by simp
  have run: "push_all NULL [2, 3, 2] caller_memory =
       Inr (10, caller_memory @
                [None, Some (Chars (''hello'' @ [CHR 0x00])),
                 None, Some (Chars (''A=1'' @ [CHR 0x00])),
                 Some (Ptrs [7, 9, 11, NULL]), Some (Chars (''hello'' @ [CHR 0x00]))])"
    by code_simp
  from appends_count_and_copy [OF pre] obtain a' h' qs where r:
    "push_all NULL [2, 3, 2] caller_memory = Inr (a', h')"
    "process_array_count a' h' = Inr (length [2, 3, 2 :: nat])"
    "entries a' h' = Inr qs"
    "\<forall>i<length [2, 3, 2 :: nat].
        c_string (qs ! i) h' = c_string ([2, 3, 2] ! i) caller_memory
        \<and> qs ! i \<noteq> [2, 3, 2] ! i \<and> length caller_memory < qs ! i"
    by blast
  from r(2) have c: "process_array_count a' h' = Inr 3" by simp
  from r(4) have e: "\<forall>i<3. c_string (qs ! i) h' = c_string ([2, 3, 2] ! i) caller_memory
                    \<and> qs ! i \<noteq> [2, 3, 2] ! i" by simp
  from s2 s3 run r(1) c r(3) e show ?thesis by blast
qed

subsection \<open>Creating a handle\<close>

lemma push_facts:
  assumes "lst a h qs" and "is_string item h"
  shows "\<exists>a1 h1 s. process_array_push a item h = Inr (a1, h1)
           \<and> lst a1 h1 (qs @ [s])
           \<and> length h < s \<and> s \<le> length h1
           \<and> c_string s h1 = c_string item h
           \<and> length h < a1 \<and> a1 \<le> length h1
           \<and> length h \<le> length h1
           \<and> (\<forall>b. 0 < b \<longrightarrow> b \<le> length h \<longrightarrow> b \<noteq> a \<longrightarrow> h1 ! (b - 1) = h ! (b - 1))"
proof -
  from assms(2) obtain cs where cs: "load_chars item h = Inr cs" "CHR 0x00 \<in> set cs"
    by (auto simp: is_string_iff)
  let ?a1 = "Suc (length h)"
  let ?s = "length h + 2"
  define h0 where "h0 = (if a = NULL then h else h[a - 1 := None])"
  define h1 where
    "h1 = h0 @ [Some (Ptrs (qs @ [?s, NULL])), Some (Chars (content cs @ [CHR 0x00]))]"
  have len0: "length h0 = length h" by (simp add: h0_def)
  have push: "process_array_push a item h = Inr (?a1, h1)"
    unfolding h1_def h0_def using assms(1) cs by (rule push_spec)
  have len1: "length h1 = length h + 2" by (simp add: h1_def len0)
  have frame1: "\<forall>b. 0 < b \<longrightarrow> b \<le> length h \<longrightarrow> b \<noteq> a \<longrightarrow> h1 ! (b - 1) = h ! (b - 1)"
    by (auto simp: h1_def h0_def nth_append nth_list_update)
  have cell_a1: "h1 ! length h = Some (Ptrs (qs @ [?s, NULL]))"
    by (simp add: h1_def nth_append len0)
  have cell_s: "h1 ! Suc (length h) = Some (Chars (content cs @ [CHR 0x00]))"
    by (simp add: h1_def nth_append len0)
  have nn: "NULL \<notin> set qs" using assms(1) by (auto simp: lst_def)
  have lst1: "lst ?a1 h1 (qs @ [?s])"
    using nn cell_a1 len1 by (simp add: lst_def load_ptrs_Inr)
  have sl: "load_chars ?s h1 = Inr (content cs @ [CHR 0x00])"
    using cell_s len1 by (simp add: load_chars_Inr)
  have cs1: "c_string ?s h1 = c_string item h"
    using c_string_spec [OF sl] c_string_spec [OF cs] by (simp add: content_copy)
  from push lst1 cs1 len1 frame1 show ?thesis
    by (intro exI [of _ ?a1] exI [of _ h1] exI [of _ ?s]) simp
qed

lemma load_cell:
  assumes "0 < b" and "b \<le> length h" and "length h \<le> length h'"
    and "h' ! (b - 1) = h ! (b - 1)"
  shows "load b h' = load b h"
  using assms by (simp add: load_def)

lemma load_cell_all:
  assumes "load b h' = load b h"
  shows "load_ptrs b h' = load_ptrs b h" "load_chars b h' = load_chars b h"
    "load_proc b h' = load_proc b h" "c_string b h' = c_string b h"
    "is_string b h' = is_string b h"
  using assms by (simp_all add: load_ptrs_def load_chars_def load_proc_def c_string_def is_string_def)

lemma is_string_live: "is_string b h \<Longrightarrow> \<exists>cs. load b h = Inr (Chars cs)"
  by (auto simp: is_string_iff load_chars_Inr load_Inr)

lemma load_proc_live: "load_proc b h = Inr P \<Longrightarrow> load b h = Inr (Struct P)"
  by (simp add: load_proc_Inr load_Inr)

lemma load_ptrs_live: "load_ptrs b h = Inr ps \<Longrightarrow> load b h = Inr (Ptrs ps)"
  by (simp add: load_ptrs_Inr load_Inr)

lemma load_store_other:
  "b \<noteq> p \<Longrightarrow> 0 < b \<Longrightarrow> 0 < p \<Longrightarrow> load b (store p x h) = load b h"
  by (auto simp: load_def store_def nth_list_update)

lemma lst_cong:
  assumes "lst a h qs" and "a = NULL \<or> load a h' = load a h"
  shows "lst a h' qs"
proof (cases "a = NULL")
  case True
  with assms(1) show ?thesis by (auto simp: lst_def load_null)
next
  case False
  with assms(2) have "load_ptrs a h' = load_ptrs a h" by (simp add: load_ptrs_def)
  with assms(1) False show ?thesis by (simp add: lst_def)
qed

lemma add_step:
  assumes ap: "appends_to getf setf add"
    and P: "load_proc p h = Inr P" and l: "lst (getf P) h qs" and it: "is_string item h"
    and gs: "\<And>a Q. getf (setf a Q) = a"
  shows "\<exists>a1 h2 s. add p item h = Inr h2
           \<and> load_proc p h2 = Inr (setf a1 P)
           \<and> lst a1 h2 (qs @ [s])
           \<and> length h < s \<and> s \<le> length h2
           \<and> c_string s h2 = c_string item h
           \<and> length h < a1 \<and> a1 \<le> length h2
           \<and> length h \<le> length h2
           \<and> (\<forall>b. 0 < b \<longrightarrow> b \<le> length h \<longrightarrow> b \<noteq> getf P \<longrightarrow> b \<noteq> p \<longrightarrow>
                  h2 ! (b - 1) = h ! (b - 1))"
proof -
  from ap P l it obtain a1 h1 where
    push: "process_array_push (getf P) item h = Inr (a1, h1)"
    and add: "add p item h = Inr (store p (Struct (setf a1 P)) h1)"
    unfolding appends_to_def by blast
  from push_facts [OF l it] push obtain s where f:
    "lst a1 h1 (qs @ [s])" "length h < s" "s \<le> length h1"
    "c_string s h1 = c_string item h" "length h < a1" "a1 \<le> length h1"
    "length h \<le> length h1"
    "\<forall>b. 0 < b \<longrightarrow> b \<le> length h \<longrightarrow> b \<noteq> getf P \<longrightarrow> h1 ! (b - 1) = h ! (b - 1)"
    by auto
  let ?h2 = "store p (Struct (setf a1 P)) h1"
  from P have p: "0 < p" "p \<le> length h" "h ! (p - 1) = Some (Struct P)"
    by (simp_all add: load_proc_Inr)
  have pg: "p \<noteq> getf P"
  proof
    assume e: "p = getf P"
    with l p(1) have "load_ptrs p h = Inr (qs @ [NULL])" by (auto simp: lst_def)
    with p show False by (simp add: load_ptrs_Inr)
  qed
  from f(8) p pg have "h1 ! (p - 1) = Some (Struct P)" by simp
  with p f(7) have P1: "load_proc p h1 = Inr P" by (simp add: load_proc_Inr)
  have P2: "load_proc p ?h2 = Inr (setf a1 P)" using P1 by (rule load_proc_store_same)
  have len2: "length ?h2 = length h1" by (simp add: store_def)
  have other: "load b ?h2 = load b h1" if "b \<noteq> p" "0 < b" for b
    using that p(1) by (rule load_store_other)
  have "a1 \<noteq> p" "s \<noteq> p" using f(2,5) p(2) by auto
  then have la: "load a1 ?h2 = load a1 h1" and ls: "load s ?h2 = load s h1"
    using f(2,5) by (auto intro: other)
  have l2: "lst a1 ?h2 (qs @ [s])" using f(1) la by (auto intro: lst_cong)
  have c2: "c_string s ?h2 = c_string item h"
    using load_cell_all(4) [OF ls] f(4) by simp
  have frame: "\<forall>b. 0 < b \<longrightarrow> b \<le> length h \<longrightarrow> b \<noteq> getf P \<longrightarrow> b \<noteq> p \<longrightarrow>
                  ?h2 ! (b - 1) = h ! (b - 1)"
    using f(8) p(1) by (auto simp: store_def nth_list_update)
  from add P2 l2 f(2,3,5,6,7) c2 frame len2 show ?thesis
    by (intro exI [of _ a1] exI [of _ ?h2] exI [of _ s]) simp
qed

lemma sentinel_nth: "(us @ NULL # rest) ! length us = NULL"
  by (simp add: nth_append)

lemma copy_loop:
  fixes loop :: "nat \<Rightarrow> heap \<Rightarrow> fault + heap"
  assumes loop_eq: "\<And>i h. loop i h =
       (if args \<noteq> NULL then
          (case read_slot args i h of
             Inl e \<Rightarrow> Inl e
           | Inr q \<Rightarrow>
               if q \<noteq> NULL then
                 (case add p q h of Inl e \<Rightarrow> Inl e | Inr h1 \<Rightarrow> loop (Suc i) h1)
               else Inr h)
        else Inr h)"
    and ap: "appends_to getf setf add"
    and gs: "\<And>a Q. getf (setf a Q) = a"
    and ss: "\<And>a b Q. setf a (setf b Q) = setf a Q"
    and sg: "\<And>Q. setf (getf Q) Q = Q"
    and nn: "NULL \<notin> set us"
  shows "load_ptrs args h = Inr (us @ NULL # rest) \<Longrightarrow>
         \<forall>u\<in>set us. is_string u h \<Longrightarrow>
         load_proc p h = Inr P \<Longrightarrow> lst (getf P) h qs \<Longrightarrow> getf P \<noteq> args \<Longrightarrow>
         i \<le> length us \<Longrightarrow> n = length us - i \<Longrightarrow>
         \<exists>a' h' new. loop i h = Inr h'
           \<and> load_proc p h' = Inr (setf a' P)
           \<and> lst a' h' (qs @ new)
           \<and> length new = length us - i
           \<and> (\<forall>j<length us - i. c_string (new ! j) h' = c_string (us ! (i + j)) h
                  \<and> 0 < new ! j \<and> new ! j \<le> length h')
           \<and> length h \<le> length h'
           \<and> a' \<le> length h'
           \<and> (\<forall>b. 0 < b \<longrightarrow> b \<le> length h \<longrightarrow> b \<noteq> getf P \<longrightarrow> b \<noteq> p \<longrightarrow>
                  h' ! (b - 1) = h ! (b - 1))"
proof (induction n arbitrary: i h P qs)
  case 0
  then have i: "i = length us" by simp
  from "0.prems"(1) have a: "args \<noteq> NULL" by (simp add: load_ptrs_Inr)
  have "read_slot args i h = Inr NULL"
    using "0.prems"(1) i by (simp add: read_slot_def bindF_Inr sentinel_nth)
  with a have run: "loop i h = Inr h" by (simp add: loop_eq)
  have le: "getf P \<le> length h"
    using "0.prems"(4) by (auto simp: lst_def load_ptrs_Inr)
  from run "0.prems"(3,4) i le show ?case
    by (intro exI [of _ "getf P"] exI [of _ h] exI [of _ "[]"]) (simp add: sg)
next
  case (Suc n)
  then have i: "i < length us" by simp
  from Suc.prems(1) have a: "args \<noteq> NULL" by (simp add: load_ptrs_Inr)
  let ?q = "us ! i"
  have q: "?q \<in> set us" using i by simp
  then have qn: "?q \<noteq> NULL" using nn by metis
  have qs: "is_string ?q h" using q Suc.prems(2) by simp
  have rd: "read_slot args i h = Inr ?q"
    using Suc.prems(1) i by (simp add: read_slot_def bindF_Inr nth_append)
  from add_step [OF ap Suc.prems(3,4) qs gs] obtain a1 h2 s where st:
    "add p ?q h = Inr h2"
    "load_proc p h2 = Inr (setf a1 P)"
    "lst a1 h2 (qs @ [s])"
    "length h < s" "s \<le> length h2"
    "c_string s h2 = c_string ?q h"
    "length h < a1" "a1 \<le> length h2"
    "length h \<le> length h2"
    "\<forall>b. 0 < b \<longrightarrow> b \<le> length h \<longrightarrow> b \<noteq> getf P \<longrightarrow> b \<noteq> p \<longrightarrow> h2 ! (b - 1) = h ! (b - 1)"
    by blast
  have unfold: "loop i h = loop (Suc i) h2"
    using a rd qn st(1) by (subst loop_eq) simp
  from Suc.prems(3) have p: "0 < p" "p \<le> length h" "load p h = Inr (Struct P)"
    by (simp_all add: load_proc_Inr load_Inr)
  have same: "load b h2 = load b h" if "load b h = Inr x" "b \<noteq> p" "b \<noteq> getf P" for b x
  proof -
    from that(1) have b: "0 < b" "b \<le> length h" by (simp_all add: load_Inr)
    with st(10) that(2,3) have "h2 ! (b - 1) = h ! (b - 1)" by simp
    with b st(9) show ?thesis by (intro load_cell) simp_all
  qed
  have gp: "load (getf P) h = Inr (Ptrs (qs @ [NULL]))" if "getf P \<noteq> NULL"
    using that Suc.prems(4) by (auto simp: lst_def load_ptrs_Inr load_Inr)
  have str_same: "load u h2 = load u h" if "is_string u h" for u
  proof -
    from is_string_live [OF that] obtain cs where u: "load u h = Inr (Chars cs)" ..
    from u p(3) have "u \<noteq> p" by auto
    moreover have "u \<noteq> getf P"
    proof
      assume e: "u = getf P"
      with u have "getf P \<noteq> NULL" by (simp add: load_Inr)
      from gp [OF this] u e show False by simp
    qed
    ultimately show ?thesis using u by (intro same)
  qed
  have la: "load args h = Inr (Ptrs (us @ NULL # rest))"
    using Suc.prems(1) by (rule load_ptrs_live)
  have "args \<noteq> p" using la p(3) by auto
  with la Suc.prems(5) have "load args h2 = load args h" by (intro same) auto
  then have args2: "load_ptrs args h2 = Inr (us @ NULL # rest)"
    using Suc.prems(1) by (simp add: load_ptrs_def)
  have strs2: "\<forall>u\<in>set us. is_string u h2"
  proof
    fix u assume "u \<in> set us"
    with Suc.prems(2) have "is_string u h" by simp
    from load_cell_all(5) [OF str_same [OF this]] this show "is_string u h2" by simp
  qed
  have l2: "lst (getf (setf a1 P)) h2 (qs @ [s])" using st(3) by (simp add: gs)
  have ne2: "getf (setf a1 P) \<noteq> args"
    using st(7) la by (auto simp: gs load_Inr)
  have i2: "Suc i \<le> length us" using i by simp
  have n2: "n = length us - Suc i" using Suc.prems(7) by simp
  from Suc.IH [OF args2 strs2 st(2) l2 ne2 i2 n2] obtain a' h' new where ih:
    "loop (Suc i) h2 = Inr h'"
    "load_proc p h' = Inr (setf a' (setf a1 P))"
    "lst a' h' ((qs @ [s]) @ new)"
    "length new = length us - Suc i"
    "\<forall>j<length us - Suc i. c_string (new ! j) h' = c_string (us ! (Suc i + j)) h2
         \<and> 0 < new ! j \<and> new ! j \<le> length h'"
    "length h2 \<le> length h'"
    "a' \<le> length h'"
    "\<forall>b. 0 < b \<longrightarrow> b \<le> length h2 \<longrightarrow> b \<noteq> getf (setf a1 P) \<longrightarrow> b \<noteq> p \<longrightarrow>
         h' ! (b - 1) = h2 ! (b - 1)"
    by blast
  have run: "loop i h = Inr h'" using unfold ih(1) by simp
  have P': "load_proc p h' = Inr (setf a' P)" using ih(2) by (simp add: ss)
  have l': "lst a' h' (qs @ (s # new))" using ih(3) by simp
  have len: "length (s # new) = length us - i" using ih(4) i by simp
  have s_str: "is_string s h2"
    using st(6) qs by (simp add: is_string_def)
  have s_ne: "s \<noteq> a1"
  proof
    assume "s = a1"
    with st(3,7) have "load_ptrs s h2 = Inr ((qs @ [s]) @ [NULL])" by (auto simp: lst_def)
    with is_string_live [OF s_str] show False by (auto dest: load_ptrs_live)
  qed
  have s_cell: "h' ! (s - 1) = h2 ! (s - 1)"
    using ih(8) [rule_format, of s] st(4,5) s_ne p(2) by (simp add: gs)
  have s_c: "c_string s h' = c_string ?q h"
  proof -
    have "load s h' = load s h2"
      using s_cell st(4,5) ih(6) by (intro load_cell) simp_all
    from load_cell_all(4) [OF this] st(6) show ?thesis by simp
  qed
  have each: "c_string ((s # new) ! j) h' = c_string (us ! (i + j)) h
              \<and> 0 < (s # new) ! j \<and> (s # new) ! j \<le> length h'"
    if "j < length us - i" for j
  proof (cases j)
    case 0
    with s_c st(4,5) ih(6) show ?thesis by simp
  next
    case (Suc k)
    with that have k: "k < length us - Suc i" by simp
    with ih(5) have r: "c_string (new ! k) h' = c_string (us ! (Suc i + k)) h2"
      "0 < new ! k" "new ! k \<le> length h'" by auto
    from k have "us ! (Suc i + k) \<in> set us" by simp
    with Suc.prems(2) have "is_string (us ! (Suc i + k)) h" by simp
    from load_cell_all(4) [OF str_same [OF this]] r Suc show ?thesis by simp
  qed
  have lenh: "length h \<le> length h'" using st(9) ih(6) by simp
  have frame: "h' ! (b - 1) = h ! (b - 1)"
    if "0 < b" "b \<le> length h" "b \<noteq> getf P" "b \<noteq> p" for b
  proof -
    from that st(7,9) have "h' ! (b - 1) = h2 ! (b - 1)"
      using ih(8) [rule_format, of b] by (simp add: gs)
    with st(10) that show ?thesis by simp
  qed
  from run P' l' len each lenh ih(7) frame show ?case
    by (intro exI [of _ a'] exI [of _ h'] exI [of _ "s # new"]) (simp del: nth_Cons_Suc)
qed

lemma read_slot_spec:
  "load_ptrs a h = Inr ps \<Longrightarrow> i < length ps \<Longrightarrow> read_slot a i h = Inr (ps ! i)"
  by (simp add: read_slot_def bindF_Inr)

lemma realloc_lst:
  assumes "lst a h qs"
  shows "realloc a (length qs + 2) h =
           Inr (Suc (length h),
                (if a = NULL then h else h[a - 1 := None]) @ [Some (Ptrs (qs @ [NULL, NULL]))])"
proof (cases "a = NULL")
  case True
  with assms have "qs = []" by (auto simp: lst_def load_null)
  with True show ?thesis by (simp add: realloc_null numeral_2_eq_2)
next
  case False
  with assms have l: "load_ptrs a h = Inr (qs @ [NULL])" by (auto simp: lst_def)
  from realloc_spec [OF l, of "length qs + 2"] False show ?thesis by simp
qed

lemma handle_not_list:
  assumes "load_proc p h = Inr P" and "lst a h qs"
  shows "p \<noteq> a"
proof
  assume "p = a"
  moreover from assms(1) have "0 < p" "h ! (p - 1) = Some (Struct P)"
    by (simp_all add: load_proc_Inr)
  ultimately show False using assms(2) by (auto simp: lst_def load_ptrs_Inr)
qed

lemma string_not_list:
  assumes "load_chars s h = Inr cs" and "lst a h qs"
  shows "s \<noteq> a"
proof
  assume "s = a"
  moreover from assms(1) have "0 < s" "h ! (s - 1) = Some (Chars cs)"
    by (simp_all add: load_chars_Inr)
  ultimately show False using assms(2) by (auto simp: lst_def load_ptrs_Inr)
qed

lemma appends_to_arg_A: "appends_to argv (\<lambda>a P. P\<lparr>argv := a\<rparr>) process_add_arg_A"
  unfolding appends_to_def
proof (intro allI impI)
  fix p item h P qs
  assume P: "load_proc p h = Inr P" and l: "lst (argv P) h qs" and it: "is_string item h"
  from push_facts [OF l it] obtain a1 h1 where f:
    "process_array_push (argv P) item h = Inr (a1, h1)" "length h \<le> length h1"
    "\<forall>b. 0 < b \<longrightarrow> b \<le> length h \<longrightarrow> b \<noteq> argv P \<longrightarrow> h1 ! (b - 1) = h ! (b - 1)"
    by blast
  from P have p: "0 < p" "p \<le> length h" "h ! (p - 1) = Some (Struct P)"
    by (simp_all add: load_proc_Inr)
  from handle_not_list [OF P l] f(3) p have "h1 ! (p - 1) = Some (Struct P)" by simp
  with p f(2) have P1: "load_proc p h1 = Inr P" by (simp add: load_proc_Inr)
  have "process_add_arg_A p item h = Inr (store p (Struct (P\<lparr>argv := a1\<rparr>)) h1)"
    by (simp add: process_add_arg_A_def P f(1) bindF_Inr update_proc_Inr [OF P1])
  with f(1) show "\<exists>a1 h1. process_array_push (argv P) item h = Inr (a1, h1)
           \<and> process_add_arg_A p item h = Inr (store p (Struct (P\<lparr>argv := a1\<rparr>)) h1)"
    by blast
qed

lemma appends_to_env_A: "appends_to envp (\<lambda>a P. P\<lparr>envp := a\<rparr>) process_add_env_A"
  unfolding appends_to_def
proof (intro allI impI)
  fix p item h P qs
  assume P: "load_proc p h = Inr P" and l: "lst (envp P) h qs" and it: "is_string item h"
  from push_facts [OF l it] obtain a1 h1 where f:
    "process_array_push (envp P) item h = Inr (a1, h1)" "length h \<le> length h1"
    "\<forall>b. 0 < b \<longrightarrow> b \<le> length h \<longrightarrow> b \<noteq> envp P \<longrightarrow> h1 ! (b - 1) = h ! (b - 1)"
    by blast
  from P have p: "0 < p" "p \<le> length h" "h ! (p - 1) = Some (Struct P)"
    by (simp_all add: load_proc_Inr)
  from handle_not_list [OF P l] f(3) p have "h1 ! (p - 1) = Some (Struct P)" by simp
  with p f(2) have P1: "load_proc p h1 = Inr P" by (simp add: load_proc_Inr)
  have "process_add_env_A p item h = Inr (store p (Struct (P\<lparr>envp := a1\<rparr>)) h1)"
    by (simp add: process_add_env_A_def P f(1) bindF_Inr update_proc_Inr [OF P1])
  with f(1) show "\<exists>a1 h1. process_array_push (envp P) item h = Inr (a1, h1)
           \<and> process_add_env_A p item h = Inr (store p (Struct (P\<lparr>envp := a1\<rparr>)) h1)"
    by blast
qed

lemma inline_append:
  assumes P: "load_proc p h = Inr P" and l: "lst a h qs"
    and cs: "load_chars item h = Inr cs" "CHR 0x00 \<in> set cs"
  shows "bindF (realloc a (length qs + 2) h) (\<lambda>(a1, h1).
         bindF (update_proc p (f a1) h1) (\<lambda>h2.
         bindF (strlen item h2) (\<lambda>n.
           let (s, h3) = calloc (n + 1) h2 in
           bindF (write_slot a1 (length qs) s h3) (\<lambda>h4.
           bindF (strlen item h4) (\<lambda>m.
           bindF (read_slot a1 (length qs) h4) (\<lambda>d.
           bindF (memcpy d item m h4) (\<lambda>h5.
           write_slot a1 (length qs + 1) NULL h5)))))))
       = Inr (store p (Struct (f (Suc (length h)) P))
               ((if a = NULL then h else h[a - 1 := None]) @
                [Some (Ptrs (qs @ [length h + 2, NULL])),
                 Some (Chars (content cs @ [CHR 0x00]))]))"
proof -
  let ?n = "length qs"
  let ?k = "length (content cs)"
  let ?a1 = "Suc (length h)"
  let ?s = "length h + 2"
  let ?X0 = "Some (Ptrs (qs @ [NULL, NULL]))"
  let ?X1 = "Some (Ptrs (qs @ [?s, NULL]))"
  let ?Z = "Some (Chars (replicate (?k + 1) (CHR 0x00)))"
  let ?C = "Some (Chars (content cs @ [CHR 0x00]))"
  define h0 where "h0 = (if a = NULL then h else h[a - 1 := None])"
  define hp where "hp = h0[p - 1 := Some (Struct (f ?a1 P))]"
  have len0: "length h0 = length h" by (simp add: h0_def)
  have lenp: "length hp = length h" by (simp add: hp_def len0)
  from P have p: "0 < p" "p \<le> length h" "h ! (p - 1) = Some (Struct P)"
    by (simp_all add: load_proc_Inr)
  have pa: "p \<noteq> a" using P l by (rule handle_not_list)
  have ia: "item \<noteq> a" using cs(1) l by (rule string_not_list)
  from cs(1) have it: "0 < item" "item \<le> length h" "h ! (item - 1) = Some (Chars cs)"
    by (simp_all add: load_chars_Inr)
  have ip: "item \<noteq> p" using it p by auto
  have re: "realloc a (?n + 2) h = Inr (?a1, h0 @ [?X0])"
    unfolding h0_def using l by (rule realloc_lst)
  have P0: "load_proc p (h0 @ [?X0]) = Inr P"
    using p pa by (auto simp: load_proc_Inr h0_def nth_append nth_list_update)
  have "update_proc p (f ?a1) (h0 @ [?X0]) = Inr (store p (Struct (f ?a1 P)) (h0 @ [?X0]))"
    using P0 by (rule update_proc_Inr)
  moreover have "store p (Struct (f ?a1 P)) (h0 @ [?X0]) = hp @ [?X0]"
    using p by (simp add: store_def hp_def list_update_append len0)
  ultimately have up: "update_proc p (f ?a1) (h0 @ [?X0]) = Inr (hp @ [?X0])" by simp
  have item_p: "hp ! (item - 1) = Some (Chars cs)"
    using it ip ia p by (auto simp: hp_def h0_def nth_list_update)
  have "load_chars item hp = Inr cs"
    using it item_p by (simp add: load_chars_Inr lenp)
  then have item_any: "load_chars item (hp @ ys) = Inr cs" for ys
    by (rule load_chars_append)
  have s1: "strlen item (hp @ [?X0]) = Inr ?k"
    using item_any cs(2) by (rule strlen_spec)
  have ca: "calloc (?k + 1) (hp @ [?X0]) = (?s, hp @ [?X0, ?Z])"
    by (simp add: calloc_def alloc_def lenp)
  have lx0: "load_ptrs ?a1 (hp @ [?X0, ?Z]) = Inr (qs @ [NULL, NULL])"
    by (simp add: load_ptrs_Inr nth_append lenp)
  have "write_slot ?a1 ?n ?s (hp @ [?X0, ?Z]) =
          Inr (store ?a1 (Ptrs ((qs @ [NULL, NULL])[?n := ?s])) (hp @ [?X0, ?Z]))"
    using lx0 by (rule write_slot_spec) simp
  then have w1: "write_slot ?a1 ?n ?s (hp @ [?X0, ?Z]) = Inr (hp @ [?X1, ?Z])"
    by (simp add: store_def list_update_append lenp)
  have s2: "strlen item (hp @ [?X1, ?Z]) = Inr ?k"
    using item_any cs(2) by (rule strlen_spec)
  have lx1: "load_ptrs ?a1 (hp @ [?X1, ?Z]) = Inr (qs @ [?s, NULL])"
    by (simp add: load_ptrs_Inr nth_append lenp)
  have "read_slot ?a1 ?n (hp @ [?X1, ?Z]) = Inr ((qs @ [?s, NULL]) ! ?n)"
    using lx1 by (rule read_slot_spec) simp
  then have rd: "read_slot ?a1 ?n (hp @ [?X1, ?Z]) = Inr ?s"
    by (simp add: nth_append)
  have lz: "load_chars ?s (hp @ [?X1, ?Z]) = Inr (replicate (?k + 1) (CHR 0x00))"
    by (simp add: load_chars_Inr nth_append lenp)
  have le: "?k \<le> length cs" by (simp add: length_takeWhile_le)
  have "memcpy ?s item ?k (hp @ [?X1, ?Z]) =
          Inr (store ?s (Chars (take ?k cs @ drop ?k (replicate (?k + 1) (CHR 0x00))))
                 (hp @ [?X1, ?Z]))"
    using item_any lz le by (rule memcpy_spec) simp
  then have mc: "memcpy ?s item ?k (hp @ [?X1, ?Z]) = Inr (hp @ [?X1, ?C])"
    by (simp add: store_def take_content drop_replicate_Suc list_update_append lenp)
  have lx2: "load_ptrs ?a1 (hp @ [?X1, ?C]) = Inr (qs @ [?s, NULL])"
    by (simp add: load_ptrs_Inr nth_append lenp)
  have "write_slot ?a1 (?n + 1) NULL (hp @ [?X1, ?C]) =
          Inr (store ?a1 (Ptrs ((qs @ [?s, NULL])[?n + 1 := NULL])) (hp @ [?X1, ?C]))"
    using lx2 by (rule write_slot_spec) simp
  then have w2: "write_slot ?a1 (?n + 1) NULL (hp @ [?X1, ?C]) = Inr (hp @ [?X1, ?C])"
    by (simp add: store_def list_update_append lenp)
  have fin: "store p (Struct (f ?a1 P)) (h0 @ [?X1, ?C]) = hp @ [?X1, ?C]"
    using p by (simp add: store_def hp_def list_update_append len0)
  have "bindF (realloc a (?n + 2) h) (\<lambda>(a1, h1).
         bindF (update_proc p (f a1) h1) (\<lambda>h2.
         bindF (strlen item h2) (\<lambda>n.
           let (s, h3) = calloc (n + 1) h2 in
           bindF (write_slot a1 ?n s h3) (\<lambda>h4.
           bindF (strlen item h4) (\<lambda>m.
           bindF (read_slot a1 ?n h4) (\<lambda>d.
           bindF (memcpy d item m h4) (\<lambda>h5.
           write_slot a1 (?n + 1) NULL h5)))))))
       = Inr (hp @ [?X1, ?C])"
    by (simp only: re bindF_Inr prod.case up s1 ca Let_def w1 s2 rd mc w2)
  with fin show ?thesis unfolding h0_def by simp
qed

lemma appends_to_arg_B: "appends_to argv (\<lambda>a P. P\<lparr>argv := a\<rparr>) process_add_arg_B"
  unfolding appends_to_def
proof (intro allI impI)
  fix p item h P qs
  assume P: "load_proc p h = Inr P" and l: "lst (argv P) h qs" and it: "is_string item h"
  from it obtain cs where cs: "load_chars item h = Inr cs" "CHR 0x00 \<in> set cs"
    by (auto simp: is_string_iff)
  have cnt: "(if argv P \<noteq> NULL then bindF (load_ptrs (argv P) h) (\<lambda>ps. count_from ps 0)
              else Inr 0) = Inr (length qs)"
    using lst_count [OF l] by (simp add: process_array_count_def)
  have "process_add_arg_B p item h =
          Inr (store p (Struct (P\<lparr>argv := Suc (length h)\<rparr>))
                ((if argv P = NULL then h else h[argv P - 1 := None]) @
                 [Some (Ptrs (qs @ [length h + 2, NULL])),
                  Some (Chars (content cs @ [CHR 0x00]))]))"
    unfolding process_add_arg_B_def
    by (simp only: P bindF_Inr cnt inline_append [OF P l cs, of "\<lambda>a P1. P1\<lparr>argv := a\<rparr>"])
  with push_spec [OF l cs]
  show "\<exists>a1 h1. process_array_push (argv P) item h = Inr (a1, h1)
           \<and> process_add_arg_B p item h = Inr (store p (Struct (P\<lparr>argv := a1\<rparr>)) h1)"
    by blast
qed

lemma appends_to_env_B: "appends_to envp (\<lambda>a P. P\<lparr>envp := a\<rparr>) process_add_env_B"
  unfolding appends_to_def
proof (intro allI impI)
  fix p item h P qs
  assume P: "load_proc p h = Inr P" and l: "lst (envp P) h qs" and it: "is_string item h"
  from it obtain cs where cs: "load_chars item h = Inr cs" "CHR 0x00 \<in> set cs"
    by (auto simp: is_string_iff)
  have cnt: "(if envp P \<noteq> NULL then bindF (load_ptrs (envp P) h) (\<lambda>ps. count_from ps 0)
              else Inr 0) = Inr (length qs)"
    using lst_count [OF l] by (simp add: process_array_count_def)
  have "process_add_env_B p item h =
          Inr (store p (Struct (P\<lparr>envp := Suc (length h)\<rparr>))
                ((if envp P = NULL then h else h[envp P - 1 := None]) @
                 [Some (Ptrs (qs @ [length h + 2, NULL])),
                  Some (Chars (content cs @ [CHR 0x00]))]))"
    unfolding process_add_env_B_def
    by (simp only: P bindF_Inr cnt inline_append [OF P l cs, of "\<lambda>a P1. P1\<lparr>envp := a\<rparr>"])
  with push_spec [OF l cs]
  show "\<exists>a1 h1. process_array_push (envp P) item h = Inr (a1, h1)
           \<and> process_add_env_B p item h = Inr (store p (Struct (P\<lparr>envp := a1\<rparr>)) h1)"
    by blast
qed

lemma strings_null: "strings NULL h = Inr []"
  by (simp add: strings_def entries_def bindF_Inr)

lemma strings_lst: "lst a h qs \<Longrightarrow> strings a h = c_strings qs h"
  by (simp add: strings_def lst_entries bindF_Inr)

lemma c_strings_all: "c_strings qs h = Inr ss \<Longrightarrow> \<forall>q\<in>set qs. is_string q h"
  by (induction qs arbitrary: ss) (auto simp: bindF_eq_Inr is_string_def)

lemma c_strings_append:
  "c_strings xs h = Inr a \<Longrightarrow> c_strings ys h = Inr b \<Longrightarrow> c_strings (xs @ ys) h = Inr (a @ b)"
  by (induction xs arbitrary: a) (auto simp: bindF_eq_Inr)

lemma c_strings_pointwise:
  "length xs = length ys \<Longrightarrow> \<forall>j<length xs. c_string (xs ! j) h' = c_string (ys ! j) h \<Longrightarrow>
   c_strings xs h' = c_strings ys h"
proof (induction xs ys rule: list_induct2)
  case Nil
  then show ?case by simp
next
  case (Cons x xs y ys)
  from Cons.prems have "c_string x h' = c_string y h" by auto
  moreover from Cons.prems have "\<forall>j<length xs. c_string (xs ! j) h' = c_string (ys ! j) h"
    by auto
  ultimately show ?case using Cons.IH by simp
qed

lemma strings_split:
  assumes "strings args h = Inr ss" and "args \<noteq> NULL"
  shows "\<exists>us rest. load_ptrs args h = Inr (us @ NULL # rest) \<and> NULL \<notin> set us
           \<and> (\<forall>u\<in>set us. is_string u h) \<and> c_strings us h = Inr ss
           \<and> entries args h = Inr us"
proof -
  from assms(1) obtain us where us: "entries args h = Inr us" "c_strings us h = Inr ss"
    by (auto simp: strings_def bindF_eq_Inr)
  from entries_split [OF us(1) assms(2)] c_strings_all [OF us(2)] us show ?thesis by blast
qed

lemma loop_strings:
  fixes loop :: "nat \<Rightarrow> heap \<Rightarrow> fault + heap"
  assumes loop_eq: "\<And>i h. loop i h =
       (if args \<noteq> NULL then
          (case read_slot args i h of
             Inl e \<Rightarrow> Inl e
           | Inr q \<Rightarrow>
               if q \<noteq> NULL then
                 (case add p q h of Inl e \<Rightarrow> Inl e | Inr h1 \<Rightarrow> loop (Suc i) h1)
               else Inr h)
        else Inr h)"
    and ap: "appends_to getf setf add"
    and gs: "\<And>a Q. getf (setf a Q) = a"
    and ss: "\<And>a b Q. setf a (setf b Q) = setf a Q"
    and sg: "\<And>Q. setf (getf Q) Q = Q"
    and user: "strings args h = Inr strs"
    and P: "load_proc p h = Inr P"
    and l: "lst (getf P) h qs" and old: "c_strings qs h = Inr olds"
    and ne: "args = NULL \<or> getf P \<noteq> args"
  shows "\<exists>a' h'. loop 0 h = Inr h'
           \<and> load_proc p h' = Inr (setf a' P)
           \<and> strings a' h' = Inr (olds @ strs)
           \<and> length h \<le> length h'
           \<and> (\<forall>b. 0 < b \<longrightarrow> b \<le> length h \<longrightarrow> b \<noteq> getf P \<longrightarrow> b \<noteq> p \<longrightarrow>
                  h' ! (b - 1) = h ! (b - 1))"
proof (cases "args = NULL")
  case True
  then have run: "loop 0 h = Inr h" by (simp add: loop_eq)
  from True user have "strs = []" by (simp add: strings_null)
  with run P l old show ?thesis
    by (intro exI [of _ "getf P"] exI [of _ h]) (simp add: sg strings_lst)
next
  case False
  from strings_split [OF user False] obtain us rest where u:
    "load_ptrs args h = Inr (us @ NULL # rest)" "NULL \<notin> set us"
    "\<forall>u\<in>set us. is_string u h" "c_strings us h = Inr strs"
    by blast
  from ne False have ne': "getf P \<noteq> args" by simp
  from copy_loop [OF loop_eq ap gs ss sg u(2) u(1) u(3) P l ne', of 0 "length us"]
  obtain a' h' new where r:
    "loop 0 h = Inr h'"
    "load_proc p h' = Inr (setf a' P)"
    "lst a' h' (qs @ new)"
    "length new = length us"
    "\<forall>j<length us. c_string (new ! j) h' = c_string (us ! j) h"
    "length h \<le> length h'"
    "\<forall>b. 0 < b \<longrightarrow> b \<le> length h \<longrightarrow> b \<noteq> getf P \<longrightarrow> b \<noteq> p \<longrightarrow> h' ! (b - 1) = h ! (b - 1)"
    by auto
  have new: "c_strings new h' = Inr strs"
    using c_strings_pointwise [of new us h' h] r(4,5) u(4) by simp
  have olds: "c_strings qs h' = Inr olds"
  proof -
    have "c_string (qs ! j) h' = c_string (qs ! j) h" if "j < length qs" for j
    proof -
      from that have "qs ! j \<in> set qs" by simp
      with c_strings_all [OF old] have s: "is_string (qs ! j) h" by simp
      then obtain cs where c: "load_chars (qs ! j) h = Inr cs" by (auto simp: is_string_iff)
      then have b: "0 < qs ! j" "qs ! j \<le> length h" by (simp_all add: load_chars_Inr)
      have "qs ! j \<noteq> getf P" using c l by (rule string_not_list)
      moreover have "qs ! j \<noteq> p"
        using c P by (auto simp: load_chars_Inr load_proc_Inr)
      ultimately have "h' ! (qs ! j - 1) = h ! (qs ! j - 1)" using r(7) b by simp
      with b r(6) have "load (qs ! j) h' = load (qs ! j) h" by (intro load_cell) simp_all
      then show ?thesis by (rule load_cell_all(4))
    qed
    then have "c_strings qs h' = c_strings qs h"
      by (intro c_strings_pointwise) simp_all
    with old show ?thesis by simp
  qed
  have "strings a' h' = Inr (olds @ strs)"
    using strings_lst [OF r(3)] c_strings_append [OF olds new] by simp
  with r(1,2,6,7) show ?thesis by blast
qed

lemma agree_trans: "agree n h h1 \<Longrightarrow> agree n h1 h2 \<Longrightarrow> agree n h h2"
  by (simp add: agree_def)

lemma agree_append: "n \<le> length h \<Longrightarrow> agree n h (h @ ys)"
  by (simp add: agree_def)

lemma agree_frame:
  assumes "\<forall>b. 0 < b \<longrightarrow> b \<le> length h \<longrightarrow> b \<noteq> g \<longrightarrow> b \<noteq> p \<longrightarrow> h' ! (b - 1) = h ! (b - 1)"
    and "length h \<le> length h'" and "n \<le> length h" and "g = NULL \<or> n < g" and "n < p"
  shows "agree n h h'"
proof -
  have "take n h' = take n h"
  proof (rule nth_equalityI)
    show "length (take n h') = length (take n h)" using assms(2,3) by simp
  next
    fix i assume "i < length (take n h')"
    then have i: "i < n" by simp
    with assms(3,4,5) have "0 < Suc i" "Suc i \<le> length h" "Suc i \<noteq> g" "Suc i \<noteq> p" by auto
    with assms(1) have "h' ! (Suc i - 1) = h ! (Suc i - 1)" by blast
    with i show "take n h' ! i = take n h ! i" by simp
  qed
  with assms(2,3) show ?thesis by (simp add: agree_def)
qed

lemma agree_load:
  assumes "agree (length h) h h'"
  shows "load b h = Inr x \<Longrightarrow> load b h' = load b h"
proof -
  assume l: "load b h = Inr x"
  then have b: "0 < b" "b \<le> length h" by (simp_all add: load_Inr)
  from assms have "take (length h) h' ! (b - 1) = take (length h) h ! (b - 1)"
    by (simp add: agree_def)
  with b have "h' ! (b - 1) = h ! (b - 1)" by simp
  moreover from assms have "length h \<le> length h'" by (simp add: agree_def)
  ultimately show ?thesis using b by (intro load_cell) simp_all
qed

lemma agree_c_string:
  assumes "agree (length h) h h'" and "c_string s h = Inr x"
  shows "c_string s h' = Inr x"
proof -
  from assms(2) have "is_string s h" by (simp add: is_string_def)
  from is_string_live [OF this] obtain cs where "load s h = Inr (Chars cs)" ..
  from agree_load [OF assms(1) this] have "load s h' = load s h" .
  from load_cell_all(4) [OF this] assms(2) show ?thesis by simp
qed

lemma same_cells_strings:
  assumes s: "strings a h = Inr ss"
    and same: "\<And>b x. load b h = Inr x \<Longrightarrow> b \<noteq> p \<Longrightarrow> load b h' = load b h"
    and P: "load_proc p h = Inr P"
  shows "strings a h' = Inr ss"
proof (cases "a = NULL")
  case True
  with s show ?thesis by (simp add: strings_null)
next
  case False
  from strings_split [OF s False] obtain us rest where u:
    "load_ptrs a h = Inr (us @ NULL # rest)" "NULL \<notin> set us"
    "\<forall>u\<in>set us. is_string u h" "c_strings us h = Inr ss" "entries a h = Inr us" by blast
  from P have pl: "load p h = Inr (Struct P)" by (rule load_proc_live)
  from u(1) have al: "load a h = Inr (Ptrs (us @ NULL # rest))" by (rule load_ptrs_live)
  with pl have "a \<noteq> p" by auto
  from same [OF al this] have "load_ptrs a h' = load_ptrs a h" by (rule load_cell_all(1))
  with s False have e: "entries a h' = entries a h" by (simp add: entries_def)
  have "c_string (us ! j) h' = c_string (us ! j) h" if "j < length us" for j
  proof -
    from that u(3) have "is_string (us ! j) h" by simp
    from is_string_live [OF this] obtain cs where c: "load (us ! j) h = Inr (Chars cs)" ..
    with pl have "us ! j \<noteq> p" by auto
    from same [OF c this] show ?thesis by (rule load_cell_all(4))
  qed
  then have "c_strings us h' = c_strings us h" by (intro c_strings_pointwise) simp_all
  then show ?thesis using e u(4,5) by (simp add: strings_def bindF_Inr)
qed

lemma agree_strings:
  assumes "agree (length h) h h'" and "strings a h = Inr ss"
  shows "strings a h' = Inr ss"
proof (cases "a = NULL")
  case True
  with assms(2) show ?thesis by (simp add: strings_null)
next
  case False
  from strings_split [OF assms(2) False] obtain us rest where u:
    "load_ptrs a h = Inr (us @ NULL # rest)" "NULL \<notin> set us"
    "\<forall>u\<in>set us. is_string u h" "c_strings us h = Inr ss" "entries a h = Inr us" by blast
  from u(1) have al: "load a h = Inr (Ptrs (us @ NULL # rest))" by (rule load_ptrs_live)
  from agree_load [OF assms(1) al] have "load_ptrs a h' = load_ptrs a h"
    by (rule load_cell_all(1))
  then have e: "entries a h' = entries a h" using False by (simp add: entries_def)
  have "c_string (us ! j) h' = c_string (us ! j) h" if "j < length us" for j
  proof -
    from that u(3) have "is_string (us ! j) h" by simp
    from is_string_live [OF this] obtain cs where c: "load (us ! j) h = Inr (Chars cs)" ..
    from agree_load [OF assms(1) c] show ?thesis by (rule load_cell_all(4))
  qed
  then have "c_strings us h' = c_strings us h" by (intro c_strings_pointwise) simp_all
  then show ?thesis using e u(4,5) by (simp add: strings_def bindF_Inr)
qed

lemma frame_cells:
  assumes "\<forall>b. 0 < b \<longrightarrow> b \<le> length h \<longrightarrow> b \<noteq> NULL \<longrightarrow> b \<noteq> p \<longrightarrow> h' ! (b - 1) = h ! (b - 1)"
    and "length h \<le> length h'" and "load b h = Inr x" and "b \<noteq> p"
  shows "load b h' = load b h"
proof -
  from assms(3) have b: "0 < b" "b \<le> length h" by (simp_all add: load_Inr)
  with assms(1,4) have "h' ! (b - 1) = h ! (b - 1)" by simp
  with b assms(2) show ?thesis by (intro load_cell) simp_all
qed

lemma c_string_chars:
  "c_string s h = Inr x \<Longrightarrow> \<exists>cs. load_chars s h = Inr cs \<and> CHR 0x00 \<in> set cs \<and> x = content cs"
  by (auto simp: c_string_def bindF_eq_Inr split: if_splits)

lemma create_A_spec:
  assumes pth: "c_string path_arg h = Inr pth"
    and args: "strings argv_arg h = Inr args"
    and envs: "strings envp_arg h = Inr envs"
  shows "\<exists>h1 P. process_create_A path_arg argv_arg envp_arg h = Inr (Suc (length h), h1)
           \<and> load_proc (Suc (length h)) h1 = Inr P
           \<and> strings (argv P) h1 = Inr args
           \<and> strings (envp P) h1 = Inr envs
           \<and> c_string (path P) h1 = Inr pth
           \<and> in' P = -1 \<and> out P = -1 \<and> err P = -1 \<and> pid P = -1"
proof -
  let ?n = "length h"
  let ?p = "Suc ?n"
  let ?s = "?n + 2"
  let ?P0 = "\<lparr>path = NULL, argv = NULL, envp = NULL, in' = -1, out = -1, err = -1, pid = -1\<rparr>"
  let ?Pb = "?P0\<lparr>path := ?s\<rparr>"
  from c_string_chars [OF pth] obtain cs where cs:
    "load_chars path_arg h = Inr cs" "CHR 0x00 \<in> set cs" "pth = content cs" by blast
  let ?C = "Some (Chars (content cs @ [CHR 0x00]))"
  define h0 where "h0 = h @ [Some (Struct ?P0)]"
  define hb where "hb = h @ [Some (Struct ?Pb), ?C]"
  have al: "alloc (Struct ?P0) h = (?p, h0)" by (simp add: alloc_def h0_def)
  have "process_string_copy path_arg h0 = Inr (Suc (length h0), h0 @ [?C])"
    using load_chars_append [OF cs(1)] cs(2) unfolding h0_def by (rule string_copy_spec)
  then have sc: "process_string_copy path_arg h0 = Inr (?s, h0 @ [?C])"
    by (simp add: h0_def)
  have "load_proc ?p (h0 @ [?C]) = Inr ?P0" by (simp add: load_proc_Inr h0_def nth_append)
  from update_proc_Inr [OF this, of "\<lambda>P. P\<lparr>path := ?s\<rparr>"]
  have up: "update_proc ?p (\<lambda>P. P\<lparr>path := ?s\<rparr>) (h0 @ [?C]) = Inr hb"
    by (simp add: store_def h0_def hb_def list_update_append)
  have ab: "agree ?n h hb" unfolding hb_def by (rule agree_append) simp
  have Pb: "load_proc ?p hb = Inr ?Pb" by (simp add: load_proc_Inr hb_def nth_append)
  have lenb: "length hb = ?n + 2" by (simp add: hb_def)
  have sb: "c_string ?s hb = Inr pth"
  proof -
    have "load_chars ?s hb = Inr (content cs @ [CHR 0x00])"
      by (simp add: load_chars_Inr hb_def nth_append)
    from c_string_spec [OF this] cs(3) show ?thesis by (simp add: content_copy)
  qed
  \<comment> \<open>the loop over the caller's arguments\<close>
  have ub: "strings argv_arg hb = Inr args" using ab args by (rule agree_strings)
  have lb: "lst (argv ?Pb) hb []" by (simp add: lst_def)
  from loop_strings [where loop = "add_args_loop_A ?p argv_arg" and add = process_add_arg_A
      and getf = argv and setf = "\<lambda>a P. P\<lparr>argv := a\<rparr>" and qs = "[]" and olds = "[]",
      OF add_args_loop_A.simps appends_to_arg_A _ _ _ ub Pb lb]
  obtain a' hc where c:
    "add_args_loop_A ?p argv_arg 0 hb = Inr hc"
    "load_proc ?p hc = Inr (?Pb\<lparr>argv := a'\<rparr>)"
    "strings a' hc = Inr args"
    "length hb \<le> length hc"
    "\<forall>b. 0 < b \<longrightarrow> b \<le> length hb \<longrightarrow> b \<noteq> NULL \<longrightarrow> b \<noteq> ?p \<longrightarrow> hc ! (b - 1) = hb ! (b - 1)"
    by auto
  let ?Pc = "?Pb\<lparr>argv := a'\<rparr>"
  have "agree ?n hb hc" using c(5,4) by (rule agree_frame) (simp_all add: lenb)
  with ab have ac: "agree ?n h hc" by (rule agree_trans)
  have sc': "c_string ?s hc = Inr pth"
  proof -
    from sb have "is_string ?s hb" by (simp add: is_string_def)
    from is_string_live [OF this] obtain x where "load ?s hb = Inr x" by blast
    from frame_cells [OF c(5,4) this] have "load ?s hc = load ?s hb" by simp
    from load_cell_all(4) [OF this] sb show ?thesis by simp
  qed
  \<comment> \<open>the loop over the caller's environment\<close>
  have uc: "strings envp_arg hc = Inr envs" using ac envs by (rule agree_strings)
  have lc: "lst (envp ?Pc) hc []" by (simp add: lst_def)
  from loop_strings [where loop = "add_envs_loop_A ?p envp_arg" and add = process_add_env_A
      and getf = envp and setf = "\<lambda>a P. P\<lparr>envp := a\<rparr>" and qs = "[]" and olds = "[]",
      OF add_envs_loop_A.simps appends_to_env_A _ _ _ uc c(2) lc]
  obtain e' h1 where d:
    "add_envs_loop_A ?p envp_arg 0 hc = Inr h1"
    "load_proc ?p h1 = Inr (?Pc\<lparr>envp := e'\<rparr>)"
    "strings e' h1 = Inr envs"
    "length hc \<le> length h1"
    "\<forall>b. 0 < b \<longrightarrow> b \<le> length hc \<longrightarrow> b \<noteq> NULL \<longrightarrow> b \<noteq> ?p \<longrightarrow> h1 ! (b - 1) = hc ! (b - 1)"
    by auto
  have same: "load b h1 = load b hc" if "load b hc = Inr x" "b \<noteq> ?p" for b x
    using d(5,4) that by (rule frame_cells)
  have a1: "strings a' h1 = Inr args" using c(3) same c(2) by (rule same_cells_strings)
  have s1: "c_string ?s h1 = Inr pth"
  proof -
    from sc' have "is_string ?s hc" by (simp add: is_string_def)
    from is_string_live [OF this] obtain x where "load ?s hc = Inr x" by blast
    from same [OF this] have "load ?s h1 = load ?s hc" by simp
    from load_cell_all(4) [OF this] sc' show ?thesis by simp
  qed
  have run: "process_create_A path_arg argv_arg envp_arg h = Inr (?p, h1)"
    unfolding process_create_A_def process_add_args_A_def process_add_envs_A_def
    by (simp only: al Let_def prod.case sc bindF_Inr up c(1) d(1))
  from run d(2) a1 d(3) s1 show ?thesis
    by (intro exI [of _ h1] exI [of _ "?Pc\<lparr>envp := e'\<rparr>"]) simp
qed

lemma create_B_spec:
  assumes pth: "c_string path_arg h = Inr pth"
    and args: "strings argv_arg h = Inr args"
    and envs: "strings envp_arg h = Inr envs"
  shows "\<exists>h1 P. process_create_B path_arg argv_arg envp_arg h = Inr (Suc (length h), h1)
           \<and> load_proc (Suc (length h)) h1 = Inr P
           \<and> strings (argv P) h1 = Inr (pth # args)
           \<and> strings (envp P) h1 = Inr envs
           \<and> c_string (path P) h1 = Inr pth
           \<and> in' P = -1 \<and> out P = -1 \<and> err P = -1 \<and> pid P = -1"
proof -
  let ?n = "length h"
  let ?p = "Suc ?n"
  let ?s = "?n + 2"
  let ?P0 = "\<lparr>path = NULL, argv = NULL, envp = NULL, in' = -1, out = -1, err = -1, pid = -1\<rparr>"
  let ?Pb = "?P0\<lparr>path := ?s\<rparr>"
  from c_string_chars [OF pth] obtain cs where cs:
    "load_chars path_arg h = Inr cs" "CHR 0x00 \<in> set cs" "pth = content cs" by blast
  let ?k = "length (content cs)"
  let ?Z = "Some (Chars (replicate (?k + 1) (CHR 0x00)))"
  let ?C = "Some (Chars (content cs @ [CHR 0x00]))"
  define h0 where "h0 = h @ [Some (Struct ?P0)]"
  define h3 where "h3 = h @ [Some (Struct ?Pb), ?Z]"
  define hb where "hb = h @ [Some (Struct ?Pb), ?C]"
  have al: "alloc (Struct ?P0) h = (?p, h0)" by (simp add: alloc_def h0_def)
  have st0: "strlen path_arg h0 = Inr ?k"
    using load_chars_append [OF cs(1)] cs(2) unfolding h0_def by (rule strlen_spec)
  have ca: "calloc (?k + 1) h0 = (?s, h0 @ [?Z])" by (simp add: calloc_def alloc_def h0_def)
  have "load_proc ?p (h0 @ [?Z]) = Inr ?P0" by (simp add: load_proc_Inr h0_def nth_append)
  from update_proc_Inr [OF this, of "\<lambda>P. P\<lparr>path := ?s\<rparr>"]
  have up: "update_proc ?p (\<lambda>P. P\<lparr>path := ?s\<rparr>) (h0 @ [?Z]) = Inr h3"
    by (simp add: store_def h0_def h3_def list_update_append)
  have l3: "load_chars path_arg h3 = Inr cs"
    unfolding h3_def using cs(1) by (rule load_chars_append)
  have st3: "strlen path_arg h3 = Inr ?k" using l3 cs(2) by (rule strlen_spec)
  have P3: "load_proc ?p h3 = Inr ?Pb" by (simp add: load_proc_Inr h3_def nth_append)
  have lz: "load_chars ?s h3 = Inr (replicate (?k + 1) (CHR 0x00))"
    by (simp add: load_chars_Inr h3_def nth_append)
  have le: "?k \<le> length cs" by (simp add: length_takeWhile_le)
  have "memcpy ?s path_arg ?k h3 =
          Inr (store ?s (Chars (take ?k cs @ drop ?k (replicate (?k + 1) (CHR 0x00)))) h3)"
    using l3 lz le by (rule memcpy_spec) simp
  then have mc: "memcpy (path ?Pb) path_arg ?k h3 = Inr hb"
    by (simp add: store_def take_content drop_replicate_Suc h3_def hb_def list_update_append)
  have ab: "agree ?n h hb" unfolding hb_def by (rule agree_append) simp
  have Pb: "load_proc ?p hb = Inr ?Pb" by (simp add: load_proc_Inr hb_def nth_append)
  have lenb: "length hb = ?n + 2" by (simp add: hb_def)
  have sb: "c_string ?s hb = Inr pth"
  proof -
    have "load_chars ?s hb = Inr (content cs @ [CHR 0x00])"
      by (simp add: load_chars_Inr hb_def nth_append)
    from c_string_spec [OF this] cs(3) show ?thesis by (simp add: content_copy)
  qed
  \<comment> \<open>the path becomes the first argument\<close>
  have pb: "c_string path_arg hb = Inr pth" using ab pth by (rule agree_c_string)
  then have isb: "is_string path_arg hb" by (simp add: is_string_def)
  have lb: "lst (argv ?Pb) hb []" by (simp add: lst_def)
  from add_step [OF appends_to_arg_B Pb lb isb] obtain a1 h5 s1 where f:
    "process_add_arg_B ?p path_arg hb = Inr h5"
    "load_proc ?p h5 = Inr (?Pb\<lparr>argv := a1\<rparr>)"
    "lst a1 h5 ([] @ [s1])"
    "c_string s1 h5 = c_string path_arg hb"
    "length hb < a1"
    "length hb \<le> length h5"
    "\<forall>b. 0 < b \<longrightarrow> b \<le> length hb \<longrightarrow> b \<noteq> argv ?Pb \<longrightarrow> b \<noteq> ?p \<longrightarrow>
         h5 ! (b - 1) = hb ! (b - 1)"
    by auto
  let ?P5 = "?Pb\<lparr>argv := a1\<rparr>"
  from f(7) have f7: "\<forall>b. 0 < b \<longrightarrow> b \<le> length hb \<longrightarrow> b \<noteq> NULL \<longrightarrow> b \<noteq> ?p \<longrightarrow>
         h5 ! (b - 1) = hb ! (b - 1)" by simp
  have "agree ?n hb h5" using f7 f(6) by (rule agree_frame) (simp_all add: lenb)
  with ab have a5: "agree ?n h h5" by (rule agree_trans)
  have s5: "c_string ?s h5 = Inr pth"
  proof -
    from sb have "is_string ?s hb" by (simp add: is_string_def)
    from is_string_live [OF this] obtain x where "load ?s hb = Inr x" by blast
    from frame_cells [OF f7 f(6) this] have "load ?s h5 = load ?s hb" by simp
    from load_cell_all(4) [OF this] sb show ?thesis by simp
  qed
  have old5: "c_strings [s1] h5 = Inr [pth]" using f(4) pb by (simp add: bindF_Inr)
  have l5: "lst (argv ?P5) h5 [s1]" using f(3) by simp
  \<comment> \<open>the loop over the caller's arguments\<close>
  have u5: "strings argv_arg h5 = Inr args" using a5 args by (rule agree_strings)
  have ne5: "argv_arg = NULL \<or> argv ?P5 \<noteq> argv_arg"
  proof (cases "argv_arg = NULL")
    case True
    then show ?thesis by simp
  next
    case False
    from strings_split [OF args False] obtain us rest where
      "load_ptrs argv_arg h = Inr (us @ NULL # rest)" by blast
    then have "argv_arg \<le> ?n" by (simp add: load_ptrs_Inr)
    with f(5) lenb show ?thesis by simp
  qed
  from loop_strings [where loop = "add_args_loop_B ?p argv_arg" and add = process_add_arg_B
      and getf = argv and setf = "\<lambda>a P. P\<lparr>argv := a\<rparr>" and qs = "[s1]" and olds = "[pth]",
      OF add_args_loop_B.simps appends_to_arg_B _ _ _ u5 f(2) l5 old5 ne5]
  obtain a' hc where c:
    "add_args_loop_B ?p argv_arg 0 h5 = Inr hc"
    "load_proc ?p hc = Inr (?P5\<lparr>argv := a'\<rparr>)"
    "strings a' hc = Inr ([pth] @ args)"
    "length h5 \<le> length hc"
    "\<forall>b. 0 < b \<longrightarrow> b \<le> length h5 \<longrightarrow> b \<noteq> a1 \<longrightarrow> b \<noteq> ?p \<longrightarrow> hc ! (b - 1) = h5 ! (b - 1)"
    by auto
  let ?Pc = "?P5\<lparr>argv := a'\<rparr>"
  have "agree ?n h5 hc" using c(5,4) by (rule agree_frame) (use f(5,6) lenb in simp_all)
  with a5 have ac: "agree ?n h hc" by (rule agree_trans)
  have sc': "c_string ?s hc = Inr pth"
  proof -
    have "?s \<le> length h5" "?s \<noteq> a1" "?s \<noteq> ?p" using f(5,6) lenb by simp_all
    with c(5) [rule_format, of ?s] have "hc ! (?s - 1) = h5 ! (?s - 1)" by simp
    with c(4) f(6) lenb have "load ?s hc = load ?s h5" by (intro load_cell) simp_all
    from load_cell_all(4) [OF this] s5 show ?thesis by simp
  qed
  \<comment> \<open>the loop over the caller's environment\<close>
  have uc: "strings envp_arg hc = Inr envs" using ac envs by (rule agree_strings)
  have lc: "lst (envp ?Pc) hc []" by (simp add: lst_def)
  from loop_strings [where loop = "add_envs_loop_B ?p envp_arg" and add = process_add_env_B
      and getf = envp and setf = "\<lambda>a P. P\<lparr>envp := a\<rparr>" and qs = "[]" and olds = "[]",
      OF add_envs_loop_B.simps appends_to_env_B _ _ _ uc c(2) lc]
  obtain e' h1 where d:
    "add_envs_loop_B ?p envp_arg 0 hc = Inr h1"
    "load_proc ?p h1 = Inr (?Pc\<lparr>envp := e'\<rparr>)"
    "strings e' h1 = Inr envs"
    "length hc \<le> length h1"
    "\<forall>b. 0 < b \<longrightarrow> b \<le> length hc \<longrightarrow> b \<noteq> NULL \<longrightarrow> b \<noteq> ?p \<longrightarrow> h1 ! (b - 1) = hc ! (b - 1)"
    by auto
  have same: "load b h1 = load b hc" if "load b hc = Inr x" "b \<noteq> ?p" for b x
    using d(5,4) that by (rule frame_cells)
  have a1': "strings a' h1 = Inr (pth # args)"
    using same_cells_strings [OF c(3) same c(2)] by simp
  have s1': "c_string ?s h1 = Inr pth"
  proof -
    from sc' have "is_string ?s hc" by (simp add: is_string_def)
    from is_string_live [OF this] obtain x where "load ?s hc = Inr x" by blast
    from same [OF this] have "load ?s h1 = load ?s hc" by simp
    from load_cell_all(4) [OF this] sc' show ?thesis by simp
  qed
  have run: "process_create_B path_arg argv_arg envp_arg h = Inr (?p, h1)"
    unfolding process_create_B_def
    by (simp only: al Let_def prod.case st0 ca bindF_Inr up st3 P3 mc f(1) c(1) d(1))
  from run d(2) a1' d(3) s1' show ?thesis
    by (intro exI [of _ h1] exI [of _ "?Pc\<lparr>envp := e'\<rparr>"]) simp
qed

text \<open>
  C4. For every valid path string and every argument and environment array that is null
  or holds valid strings up to its sentinel, \<^verbatim>\<open>process_create\<close> returns a handle whose
  argument list reads, in listing A, as exactly the caller's argument strings in order
  (the path is not inserted), and in listing B as the path followed by the caller's
  argument strings in order. Each listing applies its one policy to every input.
\<close>

theorem create_argument_policy:
  assumes "c_string path_arg h = Inr pth"
    and "strings argv_arg h = Inr args"
    and "strings envp_arg h = Inr envs"
  shows "(\<exists>p h1 P. process_create_A path_arg argv_arg envp_arg h = Inr (p, h1)
            \<and> load_proc p h1 = Inr P \<and> strings (argv P) h1 = Inr args)
       \<and> (\<exists>p h1 P. process_create_B path_arg argv_arg envp_arg h = Inr (p, h1)
            \<and> load_proc p h1 = Inr P \<and> strings (argv P) h1 = Inr (pth # args))"
  using create_A_spec [OF assms] create_B_spec [OF assms] by blast

theorem create_argument_policy_witness:
  "c_string 1 caller_memory = Inr ''/bin/echo''
   \<and> strings 4 caller_memory = Inr [''hello'']
   \<and> strings 5 caller_memory = Inr [''A=1'']
   \<and> process_create_A 1 4 5 caller_memory = Inr (6, created_memory)
   \<and> strings (argv created_handle) created_memory = Inr [''hello'']
   \<and> (\<exists>p h1 P. process_create_B 1 4 5 caller_memory = Inr (p, h1)
          \<and> load_proc p h1 = Inr P
          \<and> strings (argv P) h1 = Inr [''/bin/echo'', ''hello''])"
proof -
  have a: "c_string 1 caller_memory = Inr ''/bin/echo''" by code_simp
  have b: "strings 4 caller_memory = Inr [''hello'']" by code_simp
  have c: "strings 5 caller_memory = Inr [''A=1'']" by code_simp
  have d: "process_create_A 1 4 5 caller_memory = Inr (6, created_memory)" by code_simp
  have e: "strings (argv created_handle) created_memory = Inr [''hello'']" by code_simp
  from create_argument_policy [OF a b c] a b c d e show ?thesis by blast
qed

subsection \<open>The life of a handle\<close>

lemma same_fds_trans: "same_fds p h h1 \<Longrightarrow> same_fds p h1 h2 \<Longrightarrow> same_fds p h h2"
  unfolding same_fds_def by metis

lemma same_fds_calloc_snd: "same_fds p h (snd (calloc n h))"
  by (auto simp: same_fds_def calloc_def alloc_def load_proc_Inr nth_append split: if_splits)

lemma same_fds_memcpy: "memcpy d s n h = Inr h1 \<Longrightarrow> same_fds p h h1"
  by (auto simp: memcpy_def bindF_eq_Inr load_chars_Inr load_proc_Inr store_def same_fds_def
      nth_list_update split: if_splits)

lemma same_fds_write_slot: "write_slot a i v h = Inr h1 \<Longrightarrow> same_fds p h h1"
  by (auto simp: write_slot_def bindF_eq_Inr load_ptrs_Inr load_proc_Inr store_def same_fds_def
      nth_list_update split: if_splits)

lemma same_fds_realloc: "realloc a n h = Inr (a1, h1) \<Longrightarrow> same_fds p h h1"
  by (auto simp: realloc_def bindF_eq_Inr load_ptrs_Inr load_proc_Inr alloc_def same_fds_def
      nth_list_update nth_append split: if_splits)

lemma same_fds_update_proc:
  assumes "update_proc q f h = Inr h1"
    and "\<And>P. in' (f P) = in' P \<and> out (f P) = out P \<and> err (f P) = err P \<and> pid (f P) = pid P"
  shows "same_fds p h h1"
  using assms
  by (auto simp: update_proc_def bindF_eq_Inr load_proc_Inr store_def same_fds_def
      nth_list_update split: if_splits)

lemma same_fds_update_argv: "update_proc q (argv_update f) h = Inr h1 \<Longrightarrow> same_fds p h h1"
  by (erule same_fds_update_proc) simp

lemma same_fds_update_envp: "update_proc q (envp_update f) h = Inr h1 \<Longrightarrow> same_fds p h h1"
  by (erule same_fds_update_proc) simp

lemma same_fds_update_path: "update_proc q (path_update f) h = Inr h1 \<Longrightarrow> same_fds p h h1"
  by (erule same_fds_update_proc) simp

lemma same_fds_string_copy: "process_string_copy s h = Inr (d, h1) \<Longrightarrow> same_fds p h h1"
  apply (clarsimp simp: process_string_copy_def bindF_eq_Inr case_prod_beta Let_def
      dest!: same_fds_memcpy [where p = p])
  apply (meson same_fds_trans same_fds_calloc_snd)
  done

lemma same_fds_push: "process_array_push a item h = Inr (a1, h1) \<Longrightarrow> same_fds p h h1"
  by (auto simp: process_array_push_def bindF_eq_Inr split: prod.splits
      dest!: same_fds_realloc [where p = p] same_fds_string_copy [where p = p]
        same_fds_write_slot [where p = p] intro: same_fds_trans)

lemma same_fds_add_arg_A: "process_add_arg_A q s h = Inr h1 \<Longrightarrow> same_fds p h h1"
  by (auto simp: process_add_arg_A_def bindF_eq_Inr split: prod.splits
      dest!: same_fds_push [where p = p] same_fds_update_argv [where p = p]
      intro: same_fds_trans)

lemma same_fds_add_env_A: "process_add_env_A q s h = Inr h1 \<Longrightarrow> same_fds p h h1"
  by (auto simp: process_add_env_A_def bindF_eq_Inr split: prod.splits
      dest!: same_fds_push [where p = p] same_fds_update_envp [where p = p]
      intro: same_fds_trans)

lemma same_fds_refl: "same_fds p h h"
  by (simp add: same_fds_def)

lemma same_fds_args_loop: "add_args_loop_A q args i h = Inr h1 \<Longrightarrow> same_fds p h h1"
proof (induction q args i h rule: add_args_loop_A.induct)
  case (1 q args i h)
  show ?case
  proof (cases "args \<noteq> NULL")
    case False
    with "1.prems" show ?thesis by (simp add: same_fds_refl)
  next
    case True
    show ?thesis
    proof (cases "read_slot args i h")
      case (Inl e)
      with True "1.prems" show ?thesis by simp
    next
      case (Inr x)
      show ?thesis
      proof (cases "x \<noteq> NULL")
        case False
        with True Inr "1.prems" show ?thesis by (simp add: same_fds_refl)
      next
        case nz: True
        show ?thesis
        proof (cases "process_add_arg_A q x h")
          case (Inl e)
          with True Inr nz "1.prems" show ?thesis by simp
        next
          case h2: (Inr h2)
          with True Inr nz "1.prems" have "add_args_loop_A q args (Suc i) h2 = Inr h1" by simp
          with "1.IH" [OF True Inr nz h2] have "same_fds p h2 h1" by simp
          with same_fds_add_arg_A [OF h2] show ?thesis by (rule same_fds_trans)
        qed
      qed
    qed
  qed
qed

lemma same_fds_envs_loop: "add_envs_loop_A q envs i h = Inr h1 \<Longrightarrow> same_fds p h h1"
proof (induction q envs i h rule: add_envs_loop_A.induct)
  case (1 q envs i h)
  show ?case
  proof (cases "envs \<noteq> NULL")
    case False
    with "1.prems" show ?thesis by (simp add: same_fds_refl)
  next
    case True
    show ?thesis
    proof (cases "read_slot envs i h")
      case (Inl e)
      with True "1.prems" show ?thesis by simp
    next
      case (Inr x)
      show ?thesis
      proof (cases "x \<noteq> NULL")
        case False
        with True Inr "1.prems" show ?thesis by (simp add: same_fds_refl)
      next
        case nz: True
        show ?thesis
        proof (cases "process_add_env_A q x h")
          case (Inl e)
          with True Inr nz "1.prems" show ?thesis by simp
        next
          case h2: (Inr h2)
          with True Inr nz "1.prems" have "add_envs_loop_A q envs (Suc i) h2 = Inr h1" by simp
          with "1.IH" [OF True Inr nz h2] have "same_fds p h2 h1" by simp
          with same_fds_add_env_A [OF h2] show ?thesis by (rule same_fds_trans)
        qed
      qed
    qed
  qed
qed

lemma create_A_unlaunched:
  assumes "process_create_A path_arg argv_arg envp_arg h = Inr (p, h1)"
    and "load_proc p h1 = Inr P"
  shows "in' P = -1 \<and> out P = -1 \<and> err P = -1 \<and> pid P = -1"
proof -
  let ?P0 = "\<lparr>path = NULL, argv = NULL, envp = NULL, in' = -1, out = -1, err = -1, pid = -1\<rparr>"
  let ?h0 = "h @ [Some (Struct ?P0)]"
  from assms(1) obtain s ha hb hc where steps:
    "p = Suc (length h)"
    "process_string_copy path_arg ?h0 = Inr (s, ha)"
    "update_proc p (\<lambda>P. P\<lparr>path := s\<rparr>) ha = Inr hb"
    "process_add_args_A p argv_arg hb = Inr hc"
    "process_add_envs_A p envp_arg hc = Inr h1"
    by (auto simp: process_create_A_def alloc_def bindF_eq_Inr)
  have "same_fds p ?h0 ha" using steps(2) by (rule same_fds_string_copy)
  moreover have "same_fds p ha hb" using steps(3) by (rule same_fds_update_path)
  moreover have "same_fds p hb hc"
    using steps(4) unfolding process_add_args_A_def by (rule same_fds_args_loop)
  moreover have "same_fds p hc h1"
    using steps(5) unfolding process_add_envs_A_def by (rule same_fds_envs_loop)
  ultimately have "same_fds p ?h0 h1" by (blast intro: same_fds_trans)
  moreover have "load_proc p ?h0 = Inr ?P0" using steps(1) by (simp add: load_proc_Inr)
  ultimately show ?thesis using assms(2) by (auto simp: same_fds_def)
qed

lemma guarded_same_fds: "guarded p h \<Longrightarrow> same_fds p h h1 \<Longrightarrow> guarded p h1"
  by (auto simp: guarded_def same_fds_def split: sum.splits)

lemma free_A_ends_handle:
  assumes "process_free_A p h = Inr (t, h1)"
  shows "\<exists>e. load_proc p h1 = Inl e"
proof (cases "p = NULL")
  case True
  then show ?thesis by (simp add: load_null)
next
  case False
  with assms obtain h0 where "free p h0 = Inr h1"
    by (auto simp: process_free_A_def bindF_eq_Inr)
  with False have "h1 = h0[p - 1 := None]" "p \<le> length h0"
    by (auto simp: free_def load_Inr split: sum.splits)
  then show ?thesis
    using False by (cases "load_proc p h1") (auto simp: load_proc_Inr)
qed

lemma close_unsets:
  assumes "process_close p h = Inr (t, h1)"
  shows "\<exists>P. load_proc p h1 = Inr P \<and> in' P = -1 \<and> out P = -1 \<and> err P = -1 \<and> pid P = -1"
proof -
  from assms obtain P where P: "load_proc p h = Inr P"
    by (auto simp: process_close_def bindF_eq_Inr)
  from process_close_eq [OF P] assms
  have "h1 = store p (Struct (P\<lparr>in' := -1, out := -1, err := -1, pid := -1\<rparr>)) h" by simp
  with load_proc_store_same [OF P] show ?thesis by simp
qed

lemma guarded_step:
  assumes "guarded p h" and "run_call p c h = Some h1" and "launches_ok [c]"
  shows "guarded p h1"
proof (cases c)
  case (Add_arg s)
  with assms(2) have "process_add_arg_A p s h = Inr h1" by (simp split: sum.splits)
  then have "same_fds p h h1" by (rule same_fds_add_arg_A)
  with assms(1) show ?thesis by (rule guarded_same_fds)
next
  case (Add_env s)
  with assms(2) have "process_add_env_A p s h = Inr h1" by (simp split: sum.splits)
  then have "same_fds p h h1" by (rule same_fds_add_env_A)
  with assms(1) show ?thesis by (rule guarded_same_fds)
next
  case (Launch e)
  with assms(3) have ok: "pipes_ok e" by simp
  from Launch assms(2) obtain r t where o: "process_open_A e p h = Inr (Returns r, t, h1)"
    by (auto split: sum.splits outcome.splits)
  then obtain P where P: "load_proc p h = Inr P"
    by (auto simp: process_open_A_def bindF_eq_Inr)
  show ?thesis
  proof (cases "pid P = -1")
    case False
    with o P have "h1 = h" by (simp add: process_open_A_def bindF_Inr)
    with assms(1) show ?thesis by simp
  next
    case True
    from ok obtain a b c d e' f where replies:
      "ipipe_reply e = Some (a, b)" "opipe_reply e = Some (c, d)" "epipe_reply e = Some (e', f)"
      "0 \<le> b" "0 \<le> c" "0 \<le> e'"
      by (auto simp: pipes_ok_def pipe_ok_def split: option.splits)
    with o P True have
      "h1 = store p (Struct (P\<lparr>pid := fork_reply e, in' := b, out := c, err := e'\<rparr>)) h"
      by (auto simp: process_open_A_def bindF_Inr Let_def pipe_call_def split: if_splits)
    with load_proc_store_same [OF P] replies(4-6) show ?thesis
      by (simp add: guarded_def)
  qed
next
  case Close_handle
  with assms(2) obtain t where "process_close p h = Inr (t, h1)" by (auto split: sum.splits)
  from close_unsets [OF this] show ?thesis by (auto simp: guarded_def)
next
  case Free_handle
  with assms(2) obtain t where "process_free_A p h = Inr (t, h1)" by (auto split: sum.splits)
  from free_A_ends_handle [OF this] show ?thesis by (auto simp: guarded_def)
qed

lemma launches_ok_Cons: "launches_ok (c # cs) \<longleftrightarrow> launches_ok [c] \<and> launches_ok cs"
  by (cases c) simp_all

lemma guarded_run:
  "guarded p h \<Longrightarrow> launches_ok cs \<Longrightarrow> run_calls p cs h = Some h1 \<Longrightarrow> guarded p h1"
proof (induction cs arbitrary: h)
  case Nil
  then show ?case by simp
next
  case (Cons c cs)
  from Cons.prems(3) obtain h2 where s: "run_call p c h = Some h2" "run_calls p cs h2 = Some h1"
    by (auto split: option.splits)
  from Cons.prems(2) have ok: "launches_ok [c]" "launches_ok cs"
    using launches_ok_Cons by blast+
  from Cons.prems(1) s(1) ok(1) have "guarded p h2" by (rule guarded_step)
  from Cons.IH [OF this ok(2) s(2)] show ?case .
qed

lemma run_calls_append:
  "run_calls p (cs @ ds) h = (case run_calls p cs h of None \<Rightarrow> None | Some h1 \<Rightarrow> run_calls p ds h1)"
  by (induction cs arbitrary: h) (auto split: option.splits)

text \<open>
  C2, as amended. In every state of a live handle reached from \<^verbatim>\<open>process_create\<close>
  through \<^verbatim>\<open>process_add_arg\<close>, \<^verbatim>\<open>process_add_env\<close>, \<^verbatim>\<open>process_open\<close>, \<^verbatim>\<open>process_close\<close>
  and \<^verbatim>\<open>process_free\<close> (listing A), provided the three \<^verbatim>\<open>pipe\<close> calls of every launch
  succeeded: if the process identifier is set then the three descriptors are set; and
  right after \<^verbatim>\<open>process_close\<close> all four are unset.
\<close>

theorem pid_set_implies_streams_set:
  assumes "lifecycle path_arg argv_arg envp_arg cs h = Some (p, h1)"
    and "launches_ok cs"
    and "load_proc p h1 = Inr P"
  shows "(pid P = -1 \<or> (in' P \<noteq> -1 \<and> out P \<noteq> -1 \<and> err P \<noteq> -1))
       \<and> (\<forall>cs0. cs = cs0 @ [Close_handle] \<longrightarrow>
             in' P = -1 \<and> out P = -1 \<and> err P = -1 \<and> pid P = -1)"
proof -
  from assms(1) obtain h0 where c: "process_create_A path_arg argv_arg envp_arg h = Inr (p, h0)"
    and r: "run_calls p cs h0 = Some h1"
    by (auto simp: lifecycle_def split: sum.splits option.splits)
  have "guarded p h0"
    using create_A_unlaunched [OF c] by (auto simp: guarded_def split: sum.splits)
  from guarded_run [OF this assms(2) r] assms(3)
  have one: "pid P = -1 \<or> (in' P \<noteq> -1 \<and> out P \<noteq> -1 \<and> err P \<noteq> -1)"
    by (simp add: guarded_def)
  have two: "in' P = -1 \<and> out P = -1 \<and> err P = -1 \<and> pid P = -1"
    if "cs = cs0 @ [Close_handle]" for cs0
  proof -
    from r that obtain h2 where "run_call p Close_handle h2 = Some h1"
      by (auto simp: run_calls_append split: option.splits)
    then obtain t where "process_close p h2 = Inr (t, h1)" by (auto split: sum.splits)
    from close_unsets [OF this] assms(3) show ?thesis by simp
  qed
  from one two show ?thesis by blast
qed

theorem pid_set_implies_streams_set_witness:
  "lifecycle 1 4 5 [Add_arg 3, Launch env_parent] caller_memory = Some (6, launched_memory)
   \<and> launches_ok [Add_arg 3, Launch env_parent]
   \<and> load_proc 6 launched_memory = Inr launched_handle
   \<and> pid launched_handle = 4242 \<and> in' launched_handle = 4
   \<and> out launched_handle = 5 \<and> err launched_handle = 7
   \<and> lifecycle 1 4 5 [Launch env_parent, Close_handle] caller_memory = Some (6, created_memory)
   \<and> launches_ok [Launch env_parent, Close_handle]
   \<and> load_proc 6 created_memory = Inr created_handle
   \<and> pid created_handle = -1 \<and> in' created_handle = -1
   \<and> out created_handle = -1 \<and> err created_handle = -1"
proof -
  have a: "lifecycle 1 4 5 [Add_arg 3, Launch env_parent] caller_memory
             = Some (6, launched_memory)" by code_simp
  have b: "launches_ok [Add_arg 3, Launch env_parent]" by code_simp
  have c: "load_proc 6 launched_memory = Inr launched_handle" by code_simp
  have d: "lifecycle 1 4 5 [Launch env_parent, Close_handle] caller_memory
             = Some (6, created_memory)" by code_simp
  have e: "launches_ok [Launch env_parent, Close_handle]" by code_simp
  have f: "load_proc 6 created_memory = Inr created_handle" by code_simp
  have g: "pid launched_handle = 4242 \<and> in' launched_handle = 4
           \<and> out launched_handle = 5 \<and> err launched_handle = 7"
    by (simp add: launched_handle_def)
  from pid_set_implies_streams_set [OF d e f]
  have h: "pid created_handle = -1 \<and> in' created_handle = -1
           \<and> out created_handle = -1 \<and> err created_handle = -1" by simp
  from pid_set_implies_streams_set [OF a b c] a b c d e f g h show ?thesis by blast
qed

text \<open>
  C2 as stated fails in both directions. After a launch whose \<^verbatim>\<open>fork\<close> fails the
  descriptors are 4, 5 and 7 while the process identifier is -1. After a launch whose
  three \<^verbatim>\<open>pipe\<close> calls fail, leaving in the uninitialised arrays the value -1 they
  happened to hold, and whose \<^verbatim>\<open>fork\<close> succeeds, the process identifier is 4242 while
  the three descriptors are -1.
\<close>

theorem streams_and_pid_not_together:
  "lifecycle 1 4 5 [Launch env_fork_fails] caller_memory
     = Some (6, created_memory[5 := Some (Struct (created_handle\<lparr>in' := 4, out := 5, err := 7\<rparr>))])
   \<and> \<not> valid_together (created_handle\<lparr>in' := 4, out := 5, err := 7\<rparr>)
   \<and> lifecycle 1 4 5 [Launch env_pipes_fail] caller_memory
     = Some (6, created_memory[5 := Some (Struct (created_handle\<lparr>pid := 4242\<rparr>))])
   \<and> \<not> valid_together (created_handle\<lparr>pid := 4242\<rparr>)"
  by code_simp

end
